theory Spec2Isabelle
  imports Main "HOL-Library.Word"
begin

section \<open>The scheduler of parallax.hpp\<close>

text \<open>
  A shallow embedding of \<^verbatim>\<open>src/parallax.hpp\<close>: the class \<^verbatim>\<open>Task\<close>, the list node
  \<^verbatim>\<open>ScheduledTask\<close>, the global \<^verbatim>\<open>head\<close>, and the functions \<^verbatim>\<open>execute\<close> and \<^verbatim>\<open>update\<close>.
  The linked list lives in an explicit store (addresses to nodes), so that the pointer
  surgery of \<^verbatim>\<open>update\<close> (the pointer-to-pointer \<^verbatim>\<open>indirect\<close>) is modelled as written.
\<close>

subsection \<open>Data\<close>

text \<open>
  \<^verbatim>\<open>unsigned long\<close> on the Arduino targets of the library is 32 bits wide: the header's
  note says that \<^verbatim>\<open>millis()\<close> overflows after about 50 days, which is \<open>2^32\<close> ms.
  A \<^verbatim>\<open>ScheduledTask*\<close> is \<open>addr option\<close> (\<open>None\<close> is \<^verbatim>\<open>nullptr\<close>); a \<^verbatim>\<open>Task*\<close> names a
  \<^verbatim>\<open>Task\<close> object of the caller.
\<close>

type_synonym ulong = "32 word"
type_synonym addr = nat
type_synonym task_ptr = nat

record ScheduledTask =
  task :: task_ptr
  startTime :: ulong
  duration :: ulong
  "next" :: "addr option"

text \<open>
  The program state: the global \<^verbatim>\<open>head\<close>, the free store holding the nodes, and the
  environment the functions read. \<open>next_free\<close> is the allocator's state: \<^verbatim>\<open>new\<close> hands out
  \<open>next_free\<close> and moves on, \<^verbatim>\<open>delete\<close> unmaps the address (allocation never fails in
  the model). \<open>uptime\<close> is the time since boot in milliseconds, of which \<^verbatim>\<open>millis()\<close>
  shows the low 32 bits. Two fields only observe the run and are no program variables:
  \<open>millis_calls\<close> counts the calls of \<^verbatim>\<open>millis()\<close>, and \<open>invoked\<close> records every task
  invocation made by \<^verbatim>\<open>update\<close>, oldest first, as the pair of the entry (its address)
  and the \<^verbatim>\<open>Task*\<close> it called.
\<close>

record state =
  head :: "addr option"
  heap :: "addr \<rightharpoonup> ScheduledTask"
  next_free :: addr
  uptime :: nat
  millis_calls :: nat
  invoked :: "(addr \<times> task_ptr) list"

text \<open>
  A \<^verbatim>\<open>std::function<void(void)>\<close> is either empty or holds a callable; the callable is
  caller code and may change anything in the state. Calling an empty one throws
  \<^verbatim>\<open>std::bad_function_call\<close>. Reading or writing through a pointer to a node that is not
  allocated is the error \<open>invalid_pointer\<close>. The member \<^verbatim>\<open>function\<close> of \<^verbatim>\<open>Task\<close> is the
  field \<open>func\<close>, and \<^verbatim>\<open>Task::operator()\<close> is \<open>Task_call\<close>.
\<close>

datatype error = bad_function_call | invalid_pointer

type_synonym callable = "state \<Rightarrow> state"

record Task =
  func :: "callable option"

definition std_function_call :: "callable option \<Rightarrow> state \<Rightarrow> error + state" where
  "std_function_call f s = (case f of None \<Rightarrow> Inl bad_function_call | Some g \<Rightarrow> Inr (g s))"

text \<open>\<^verbatim>\<open>Task::operator()\<close>: \<^verbatim>\<open>if (function) { function(); }\<close>\<close>

definition Task_call :: "Task \<Rightarrow> state \<Rightarrow> error + state" where
  "Task_call t s = (if func t \<noteq> None then std_function_call (func t) s else Inr s)"

text \<open>\<^verbatim>\<open>millis()\<close>: the uptime modulo \<open>2^32\<close>.\<close>

definition millis :: "state \<Rightarrow> ulong \<times> state" where
  "millis s = (of_nat (uptime s), s\<lparr>millis_calls := Suc (millis_calls s)\<rparr>)"

subsection \<open>execute\<close>

definition execute :: "task_ptr \<Rightarrow> ulong \<Rightarrow> state \<Rightarrow> state" where
  "execute tp dur s =
     (let newTask = next_free s;
          s1 = s\<lparr>next_free := Suc newTask\<rparr>;
          (t, s2) = millis s1;
          node = \<lparr>task = tp, startTime = t, duration = dur, next = None\<rparr>
      in if head s2 = None
         then s2\<lparr>heap := (heap s2)(newTask \<mapsto> node), head := Some newTask\<rparr>
         else s2\<lparr>heap := (heap s2)(newTask \<mapsto> node\<lparr>next := head s2\<rparr>), head := Some newTask\<rparr>)"

subsection \<open>update\<close>

text \<open>
  \<^verbatim>\<open>ScheduledTask **indirect\<close> points either at the global \<^verbatim>\<open>head\<close> or at the \<^verbatim>\<open>next\<close>
  field of a node. \<open>load\<close> is \<^verbatim>\<open>*indirect\<close>, \<open>store\<close> is \<^verbatim>\<open>*indirect = v\<close>.
\<close>

datatype indirect = Head | Next addr

fun load :: "indirect \<Rightarrow> state \<Rightarrow> error + addr option" where
  "load Head s = Inr (head s)"
| "load (Next a) s = (case heap s a of None \<Rightarrow> Inl invalid_pointer | Some n \<Rightarrow> Inr (next n))"

fun store :: "indirect \<Rightarrow> addr option \<Rightarrow> state \<Rightarrow> error + state" where
  "store Head v s = Inr (s\<lparr>head := v\<rparr>)"
| "store (Next a) v s =
     (case heap s a of None \<Rightarrow> Inl invalid_pointer
      | Some n \<Rightarrow> Inr (s\<lparr>heap := (heap s)(a \<mapsto> n\<lparr>next := v\<rparr>)\<rparr>))"

text \<open>
  The \<^verbatim>\<open>while (*indirect)\<close> loop. It need not end (a callable may tie the list into a
  cycle), so the result is an option: \<open>None\<close> is a loop that never returns. The \<^verbatim>\<open>Task\<close>
  objects belong to the caller and no code of the header changes them: \<open>tasks\<close> gives the
  object a \<^verbatim>\<open>Task*\<close> points to. The parameter \<open>duration\<close> of \<^verbatim>\<open>execute\<close> is \<open>dur\<close> above.
\<close>

partial_function (option) update_loop ::
  "(task_ptr \<Rightarrow> Task) \<Rightarrow> ulong \<Rightarrow> indirect \<Rightarrow> state \<Rightarrow> (error + state) option" where
  "update_loop tasks currentTime ind s =
    (case load ind s of
       Inl e \<Rightarrow> Some (Inl e)
     | Inr None \<Rightarrow> Some (Inr s)
     | Inr (Some current) \<Rightarrow>
        (case heap s current of
           None \<Rightarrow> Some (Inl invalid_pointer)
         | Some n \<Rightarrow>
            if currentTime - startTime n < duration n then
              (case Task_call (tasks (task n)) (s\<lparr>invoked := invoked s @ [(current, task n)]\<rparr>) of
                 Inl e \<Rightarrow> Some (Inl e)
               | Inr s' \<Rightarrow> update_loop tasks currentTime (Next current) s')
            else
              (case store ind (next n) s of
                 Inl e \<Rightarrow> Some (Inl e)
               | Inr s' \<Rightarrow>
                   update_loop tasks currentTime ind (s'\<lparr>heap := (heap s')(current := None)\<rparr>))))"

definition update :: "(task_ptr \<Rightarrow> Task) \<Rightarrow> state \<Rightarrow> (error + state) option" where
  "update tasks s = (case millis s of (currentTime, s1) \<Rightarrow> update_loop tasks currentTime Head s1)"

subsection \<open>The collection a state holds\<close>

text \<open>
  An entry of the collection, seen from outside: the node's address and the three fields
  that \<^verbatim>\<open>execute\<close> sets. \<open>is_list h p es\<close> says that following \<^verbatim>\<open>next\<close> from \<open>p\<close> in the
  store \<open>h\<close> passes exactly the entries \<open>es\<close>, in this order, and ends at \<^verbatim>\<open>nullptr\<close>.
\<close>

record entry =
  e_addr :: addr
  e_task :: task_ptr
  e_start :: ulong
  e_dur :: ulong

fun is_list :: "(addr \<rightharpoonup> ScheduledTask) \<Rightarrow> addr option \<Rightarrow> entry list \<Rightarrow> bool" where
  "is_list h p [] = (p = None)"
| "is_list h p (e # es) =
     (p = Some (e_addr e) \<and>
      (case h (e_addr e) of
         None \<Rightarrow> False
       | Some n \<Rightarrow> task n = e_task e \<and> startTime n = e_start e \<and> duration n = e_dur e \<and>
                   is_list h (next n) es))"

text \<open>The test of line 103, on an entry: \<^verbatim>\<open>currentTime - current->startTime < current->duration\<close>.\<close>

definition live :: "ulong \<Rightarrow> entry \<Rightarrow> bool" where
  "live currentTime e = (currentTime - e_start e < e_dur e)"

text \<open>Nothing is allocated at or above the allocator's mark.\<close>

definition alloc_ok :: "state \<Rightarrow> bool" where
  "alloc_ok s = (\<forall>a. next_free s \<le> a \<longrightarrow> heap s a = None)"

definition collection :: "state \<Rightarrow> entry list \<Rightarrow> bool" where
  "collection s es = (is_list (heap s) (head s) es \<and> alloc_ok s)"

text \<open>The log entry of an invocation made for entry \<open>e\<close>.\<close>

definition call_of :: "entry \<Rightarrow> addr \<times> task_ptr" where
  "call_of e = (e_addr e, e_task e)"

text \<open>
  What the scheduler asks of a callable (the caller's obligations: no re-entrant
  \<^verbatim>\<open>update\<close>, no access to the list but through \<^verbatim>\<open>execute\<close>): run on a state
  that holds the collection \<open>es\<close>, it returns, leaves every allocated node as it was, and
  at most puts new entries, at fresh addresses, in front of \<open>es\<close>. It may let any time
  pass and read the clock.
\<close>

definition well_behaved :: "callable \<Rightarrow> bool" where
  "well_behaved g =
     (\<forall>s es. collection s es \<longrightarrow>
        (\<exists>new. collection (g s) (new @ es) \<and>
           (\<forall>e \<in> set new. next_free s \<le> e_addr e) \<and>
           next_free s \<le> next_free (g s) \<and>
           (\<forall>a. a < next_free s \<longrightarrow> heap (g s) a = heap s a) \<and>
           invoked (g s) = invoked s))"

definition tasks_ok :: "(task_ptr \<Rightarrow> Task) \<Rightarrow> bool" where
  "tasks_ok tasks = (\<forall>tp g. func (tasks tp) = Some g \<longrightarrow> well_behaved g)"

text \<open>A callable that leaves the scheduler alone: the list, the store and the log stay.\<close>

definition quiet :: "callable \<Rightarrow> bool" where
  "quiet g = (\<forall>s. head (g s) = head s \<and> heap (g s) = heap s \<and> next_free (g s) = next_free s \<and>
                  invoked (g s) = invoked s \<and> millis_calls (g s) = millis_calls s)"

definition tasks_quiet :: "(task_ptr \<Rightarrow> Task) \<Rightarrow> bool" where
  "tasks_quiet tasks = (\<forall>tp g. func (tasks tp) = Some g \<longrightarrow> quiet g)"

text \<open>
  Where \<^verbatim>\<open>indirect\<close> stands in the scan: \<open>pre\<close> are the entries already passed and
  kept, from the head of the list. Before the first kept entry \<^verbatim>\<open>indirect\<close> is \<^verbatim>\<open>&head\<close>,
  afterwards it is the \<^verbatim>\<open>next\<close> field of the last kept entry.
\<close>

fun cell :: "indirect \<Rightarrow> entry list \<Rightarrow> bool" where
  "cell Head pre = (pre = [])"
| "cell (Next a) pre = (pre \<noteq> [] \<and> e_addr (last pre) = a)"

text \<open>The invocations logged between two states of one run.\<close>

definition calls_during :: "state \<Rightarrow> state \<Rightarrow> (addr \<times> task_ptr) list" where
  "calls_during s s' = drop (length (invoked s)) (invoked s')"

text \<open>The state at program start: \<^verbatim>\<open>ScheduledTask *head = nullptr;\<close>, nothing allocated.\<close>

definition boot :: state where
  "boot = \<lparr>head = None, heap = Map.empty, next_free = 0, uptime = 0, millis_calls = 0,
           invoked = []\<rparr>"

subsection \<open>Callers used in the examples\<close>

text \<open>
  A table of caller tasks: the callable of task 1 schedules task 2 for 5 ms (a call of
  \<^verbatim>\<open>execute\<close> from inside a task), the callable of task 3 takes 100 ms of time, every
  other task wraps an empty \<^verbatim>\<open>std::function\<close>.
\<close>

definition demo_tasks :: "task_ptr \<Rightarrow> Task" where
  "demo_tasks tp =
     (if tp = 1 then \<lparr>func = Some (execute 2 5)\<rparr>
      else if tp = 3 then \<lparr>func = Some (\<lambda>s. s\<lparr>uptime := uptime s + 100\<rparr>)\<rparr>
      else \<lparr>func = None\<rparr>)"

text \<open>
  Two entries: task 0 scheduled for 5 ms at uptime 100, task 1 for 20 ms at uptime 103;
  the state is looked at when the uptime is 110.
\<close>

definition two_entries :: state where
  "two_entries =
     (execute 1 20 ((execute 0 5 (boot\<lparr>uptime := 100\<rparr>))\<lparr>uptime := 103\<rparr>))\<lparr>uptime := 110\<rparr>"

text \<open>A table where task 3 takes 100 ms and every other task is empty.\<close>

definition slow_tasks :: "task_ptr \<Rightarrow> Task" where
  "slow_tasks tp =
     (if tp = 3 then \<lparr>func = Some (\<lambda>s. s\<lparr>uptime := uptime s + 100\<rparr>)\<rparr> else \<lparr>func = None\<rparr>)"

text \<open>
  Task 0 scheduled for 50 ms at uptime 100, then the slow task 3 for 20 ms at uptime 103;
  the state is looked at when the uptime is 110.
\<close>

definition slow_first :: state where
  "slow_first =
     (execute 3 20 ((execute 0 50 (boot\<lparr>uptime := 100\<rparr>))\<lparr>uptime := 103\<rparr>))\<lparr>uptime := 110\<rparr>"

text \<open>
  A caller that schedules the same task once per element of a list: it waits, then calls
  \<^verbatim>\<open>execute\<close> with the given duration.
\<close>

fun schedule_all :: "task_ptr \<Rightarrow> (nat \<times> ulong) list \<Rightarrow> state \<Rightarrow> state" where
  "schedule_all tp [] s = s"
| "schedule_all tp ((wait, d) # ds) s =
     schedule_all tp ds (execute tp d (s\<lparr>uptime := uptime s + wait\<rparr>))"

text \<open>
  Five entries of the empty task 0, scheduled at uptime 0 with durations 5, 50, 5, 50, 5
  (the last one is the head of the list), looked at when the uptime is 10.
\<close>

definition five_entries :: state where
  "five_entries = (schedule_all 0 [(0, 5), (0, 50), (0, 5), (0, 50), (0, 5)] boot)\<lparr>uptime := 10\<rparr>"

text \<open>Task 3 scheduled three times, for 5, 50 and 500 ms, looked at when the uptime is 10.\<close>

definition three_same :: state where
  "three_same = (schedule_all 3 [(0, 5), (1, 50), (1, 500)] boot)\<lparr>uptime := 10\<rparr>"

text \<open>One entry of duration 10, scheduled 5 ms before the clock wraps.\<close>

definition wrap_entry :: state where
  "wrap_entry = execute 0 10 (boot\<lparr>uptime := 2 ^ 32 - 5\<rparr>)"

section \<open>Lists in the store\<close>

lemma is_list_Cons:
  "is_list h p (e # es) \<longleftrightarrow>
     (\<exists>n. p = Some (e_addr e) \<and> h (e_addr e) = Some n \<and> task n = e_task e \<and>
          startTime n = e_start e \<and> duration n = e_dur e \<and> is_list h (next n) es)"
  by (simp split: option.splits)

declare is_list.simps(2) [simp del]

lemma is_list_unique:
  "is_list h p es \<Longrightarrow> is_list h p es' \<Longrightarrow> es = es'"
proof (induction es arbitrary: p es')
  case Nil
  then show ?case by (cases es') (auto simp: is_list_Cons)
next
  case (Cons e es)
  from Cons.prems obtain n where n: "p = Some (e_addr e)" "h (e_addr e) = Some n"
    and f: "task n = e_task e" "startTime n = e_start e" "duration n = e_dur e"
    and t: "is_list h (next n) es"
    unfolding is_list_Cons by blast
  from Cons.prems(2) n(1) obtain e' es'' where es': "es' = e' # es''"
    by (cases es') auto
  from Cons.prems(2) n obtain n' where n': "e_addr e' = e_addr e" "h (e_addr e') = Some n'"
    and f': "task n' = e_task e'" "startTime n' = e_start e'" "duration n' = e_dur e'"
    and t': "is_list h (next n') es''"
    unfolding es' is_list_Cons by auto
  have nn: "n' = n" using n n' by simp
  have "e = e'" using n' f f' nn by (intro entry.equality) auto
  moreover have "es = es''" using Cons.IH t t' nn by blast
  ultimately show ?case using es' by simp
qed

lemma is_list_frame:
  "is_list h p es \<Longrightarrow> \<forall>e\<in>set es. h' (e_addr e) = h (e_addr e) \<Longrightarrow> is_list h' p es"
  by (induction es arbitrary: p) (auto simp: is_list_Cons)

lemma is_list_suffix:
  "is_list h p (xs @ ys) \<Longrightarrow> \<exists>q. is_list h q ys"
  by (induction xs arbitrary: p) (auto simp: is_list_Cons)

lemma is_list_not_in_tail:
  assumes "h a = Some n" and "is_list h (next n) es"
  shows "a \<notin> e_addr ` set es"
proof
  assume "a \<in> e_addr ` set es"
  then obtain e where "e \<in> set es" "e_addr e = a" by auto
  then obtain xs ys where es: "es = xs @ e # ys" by (auto simp: in_set_conv_decomp)
  with assms(2) obtain q where "is_list h q (e # ys)" using is_list_suffix by blast
  with \<open>e_addr e = a\<close> assms(1) have "is_list h (next n) ys" by (auto simp: is_list_Cons)
  with assms(2) have "es = ys" by (rule is_list_unique)
  with es show False by simp
qed

lemma is_list_distinct:
  "is_list h p es \<Longrightarrow> distinct (map e_addr es)"
proof (induction es arbitrary: p)
  case Nil
  then show ?case by simp
next
  case (Cons e es)
  then obtain n where "h (e_addr e) = Some n" "is_list h (next n) es"
    by (auto simp: is_list_Cons)
  then show ?case using Cons.IH is_list_not_in_tail by auto
qed

lemma is_list_start:
  "is_list h p es \<Longrightarrow> p = (case es of [] \<Rightarrow> None | e # _ \<Rightarrow> Some (e_addr e))"
  by (cases es) (auto simp: is_list_Cons)

lemma is_list_last:
  "is_list h p (pre @ es) \<Longrightarrow> pre \<noteq> [] \<Longrightarrow>
   \<exists>n. h (e_addr (last pre)) = Some n \<and> is_list h (next n) es"
proof (induction pre arbitrary: p)
  case Nil
  then show ?case by simp
next
  case (Cons x xs)
  then show ?case by (cases "xs = []") (auto simp: is_list_Cons)
qed

lemma load_cell:
  assumes "is_list (heap s) (head s) (pre @ es)" and "cell ind pre"
  shows "load ind s = Inr (case es of [] \<Rightarrow> None | e # _ \<Rightarrow> Some (e_addr e))"
proof (cases ind)
  case Head
  with assms show ?thesis using is_list_start [of "heap s" "head s" es] by simp
next
  case (Next a)
  with assms obtain n where "heap s a = Some n" "is_list (heap s) (next n) es"
    using is_list_last [of "heap s" "head s" pre es] by auto
  with Next show ?thesis using is_list_start [of "heap s" "next n" es] by simp
qed

lemma is_list_ConsI:
  "p = Some (e_addr e) \<Longrightarrow> h (e_addr e) = Some n \<Longrightarrow> task n = e_task e \<Longrightarrow>
   startTime n = e_start e \<Longrightarrow> duration n = e_dur e \<Longrightarrow> is_list h (next n) es \<Longrightarrow>
   is_list h p (e # es)"
  unfolding is_list_Cons by simp

lemma unlink_next:
  assumes "is_list h p (pre @ c # rest)" and "pre \<noteq> []"
    and "distinct (map e_addr (pre @ c # rest))"
    and "e_addr (last pre) = l" and "h l = Some nl" and "h (e_addr c) = Some nc"
    and h': "h' = h(l \<mapsto> nl\<lparr>next := next nc\<rparr>, e_addr c := None)"
  shows "is_list h' p (pre @ rest)"
  using assms(1-4)
proof (induction pre arbitrary: p)
  case Nil
  then show ?case by simp
next
  case (Cons x xs)
  from Cons.prems(1) obtain nx where nx: "p = Some (e_addr x)" "h (e_addr x) = Some nx"
    "task nx = e_task x" "startTime nx = e_start x" "duration nx = e_dur x"
    and tl: "is_list h (next nx) (xs @ c # rest)"
    unfolding append_Cons is_list_Cons by blast
  have xc: "e_addr x \<noteq> e_addr c" using Cons.prems(3) by simp
  show ?case
  proof (cases "xs = []")
    case True
    with Cons.prems(4) have l: "l = e_addr x" by simp
    with assms(5) nx have nl: "nl = nx" by simp
    from tl True assms(6) have r: "is_list h (next nc) rest"
      by (auto simp: is_list_Cons)
    have "\<forall>e\<in>set rest. e_addr e \<noteq> e_addr x \<and> e_addr e \<noteq> e_addr c"
      using Cons.prems(3) True by (auto simp: image_iff)
    then have r': "is_list h' (next nc) rest"
      using l h' by (intro is_list_frame [OF r]) simp
    have "is_list h' p (x # rest)"
      by (rule is_list_ConsI [where n = "nx\<lparr>next := next nc\<rparr>"])
         (use l nx nl xc r' h' in simp_all)
    then show ?thesis using True by simp
  next
    case False
    with Cons.prems(4) have l: "e_addr (last xs) = l" by simp
    have r': "is_list h' (next nx) (xs @ rest)"
      using Cons.IH [OF tl False _ l] Cons.prems(3) by simp
    have "e_addr x \<noteq> l"
      using Cons.prems(3) False l by auto
    then have "is_list h' p (x # xs @ rest)"
      by (intro is_list_ConsI [where n = nx]) (use nx xc r' h' in simp_all)
    then show ?thesis by simp
  qed
qed

lemma unlink_head:
  assumes "is_list h p (c # rest)" and "h (e_addr c) = Some nc"
  shows "is_list (h(e_addr c := None)) (next nc) rest"
proof -
  from assms have r: "is_list h (next nc) rest" by (auto simp: is_list_Cons)
  with assms(2) have "e_addr c \<notin> e_addr ` set rest" by (rule is_list_not_in_tail)
  then have "\<forall>e\<in>set rest. e_addr e \<noteq> e_addr c" by (auto simp: image_iff)
  then show ?thesis by (intro is_list_frame [OF r]) simp
qed

section \<open>The scan of update\<close>

lemma alloc_ok_lt: "alloc_ok s \<Longrightarrow> heap s a = Some n \<Longrightarrow> a < next_free s"
  unfolding alloc_ok_def by (metis not_le_imp_less option.distinct(1))

lemma unlink_collection:
  assumes col: "collection s (pre @ c # rest)" and cell: "cell ind pre"
    and nc: "heap s (e_addr c) = Some nc"
  shows "\<exists>s2. store ind (next nc) s = Inr s2 \<and>
           collection (s2\<lparr>heap := (heap s2)(e_addr c := None)\<rparr>) (pre @ rest) \<and>
           next_free s2 = next_free s \<and> invoked s2 = invoked s \<and>
           millis_calls s2 = millis_calls s \<and> uptime s2 = uptime s \<and>
           (\<forall>a. a \<notin> e_addr ` set (pre @ c # rest) \<longrightarrow> heap s2 a = heap s a)"
proof (cases ind)
  case Head
  with cell have pre: "pre = []" by simp
  let ?s2 = "s\<lparr>head := next nc\<rparr>"
  from col pre have "is_list (heap s) (head s) (c # rest)" by (simp add: collection_def)
  then have "is_list ((heap s)(e_addr c := None)) (next nc) rest"
    using nc by (rule unlink_head)
  moreover have "alloc_ok (?s2\<lparr>heap := (heap ?s2)(e_addr c := None)\<rparr>)"
    using col by (simp add: collection_def alloc_ok_def)
  ultimately have "collection (?s2\<lparr>heap := (heap ?s2)(e_addr c := None)\<rparr>) (pre @ rest)"
    using pre by (simp add: collection_def)
  then show ?thesis using Head by (intro exI [of _ ?s2]) simp
next
  case (Next a)
  with cell have pre: "pre \<noteq> []" "e_addr (last pre) = a" by simp_all
  from col have lst: "is_list (heap s) (head s) (pre @ c # rest)" and ok: "alloc_ok s"
    by (simp_all add: collection_def)
  from is_list_last [OF lst pre(1)] pre(2) obtain nl where nl: "heap s a = Some nl" by auto
  let ?s2 = "s\<lparr>heap := (heap s)(a \<mapsto> nl\<lparr>next := next nc\<rparr>)\<rparr>"
  have "is_list ((heap s)(a \<mapsto> nl\<lparr>next := next nc\<rparr>, e_addr c := None)) (head s) (pre @ rest)"
    using lst pre(1) is_list_distinct [OF lst] pre(2) nl nc by (rule unlink_next) simp
  moreover have "alloc_ok (?s2\<lparr>heap := (heap ?s2)(e_addr c := None)\<rparr>)"
    using ok alloc_ok_lt [OF ok nl] by (simp add: alloc_ok_def)
  ultimately have "collection (?s2\<lparr>heap := (heap ?s2)(e_addr c := None)\<rparr>) (pre @ rest)"
    by (simp add: collection_def)
  moreover have "\<forall>b. b \<notin> e_addr ` set (pre @ c # rest) \<longrightarrow> heap ?s2 b = heap s b"
    using pre by auto
  ultimately show ?thesis using Next nl by (intro exI [of _ ?s2]) simp
qed

lemma Task_call_Inr:
  "Task_call T s = Inr (case func T of None \<Rightarrow> s | Some g \<Rightarrow> g s)"
  by (simp add: Task_call_def std_function_call_def split: option.splits)

lemma quiet_well_behaved: "quiet g \<Longrightarrow> well_behaved g"
  unfolding quiet_def well_behaved_def collection_def alloc_ok_def
  by (intro allI impI exI [of _ "[]"]) simp

lemma task_step:
  assumes ok: "tasks_ok tasks" and col: "collection s es"
  shows "\<exists>s1 new. Task_call (tasks tp) s = Inr s1 \<and> collection s1 (new @ es) \<and>
           (\<forall>e\<in>set new. next_free s \<le> e_addr e) \<and> next_free s \<le> next_free s1 \<and>
           (\<forall>a. a < next_free s \<longrightarrow> heap s1 a = heap s a) \<and> invoked s1 = invoked s \<and>
           (tasks_quiet tasks \<longrightarrow> next_free s1 = next_free s \<and> millis_calls s1 = millis_calls s)"
proof (cases "func (tasks tp)")
  case None
  then have "Task_call (tasks tp) s = Inr s" by (simp add: Task_call_Inr)
  then show ?thesis using col by (intro exI [of _ s] exI [of _ "[]"]) simp
next
  case (Some g)
  then have call: "Task_call (tasks tp) s = Inr (g s)" by (simp add: Task_call_Inr)
  from ok Some have "well_behaved g" by (auto simp: tasks_ok_def)
  with col obtain new where new: "collection (g s) (new @ es)"
    "\<forall>e\<in>set new. next_free s \<le> e_addr e" "next_free s \<le> next_free (g s)"
    "\<forall>a. a < next_free s \<longrightarrow> heap (g s) a = heap s a" "invoked (g s) = invoked s"
    unfolding well_behaved_def by blast
  have "tasks_quiet tasks \<longrightarrow> next_free (g s) = next_free s \<and> millis_calls (g s) = millis_calls s"
    using Some by (auto simp: tasks_quiet_def quiet_def)
  with call new show ?thesis by (intro exI [of _ "g s"] exI [of _ new]) simp
qed

lemma collection_invoked [simp]: "collection (s\<lparr>invoked := l\<rparr>) es = collection s es"
  by (simp add: collection_def alloc_ok_def)

lemma collection_millis_calls [simp]: "collection (s\<lparr>millis_calls := l\<rparr>) es = collection s es"
  by (simp add: collection_def alloc_ok_def)

lemma collection_uptime [simp]: "collection (s\<lparr>uptime := l\<rparr>) es = collection s es"
  by (simp add: collection_def alloc_ok_def)

lemma update_loop_collection:
  assumes ok: "tasks_ok tasks"
  shows "collection s (pre @ es) \<Longrightarrow> cell ind pre \<Longrightarrow>
    \<exists>s' new. update_loop tasks t ind s = Some (Inr s') \<and>
       collection s' (new @ pre @ filter (live t) es) \<and>
       (\<forall>e\<in>set new. next_free s \<le> e_addr e) \<and>
       next_free s \<le> next_free s' \<and>
       invoked s' = invoked s @ map call_of (filter (live t) es) \<and>
       (\<forall>a. a < next_free s \<longrightarrow> a \<notin> e_addr ` set (pre @ es) \<longrightarrow> heap s' a = heap s a) \<and>
       (\<forall>e\<in>set es. \<not> live t e \<longrightarrow> heap s' (e_addr e) = None) \<and>
       (tasks_quiet tasks \<longrightarrow> next_free s' = next_free s \<and> millis_calls s' = millis_calls s) \<and>
       (filter (live t) es = [] \<longrightarrow> new = [] \<and> uptime s' = uptime s)"
proof (induction es arbitrary: s pre ind)
  case Nil
  then have "load ind s = Inr None"
    using load_cell [of s pre "[]" ind] by (simp add: collection_def)
  then have "update_loop tasks t ind s = Some (Inr s)"
    by (subst update_loop.simps) simp
  with Nil.prems(1) show ?case by (intro exI [of _ s] exI [of _ "[]"]) simp
next
  case (Cons c rest)
  from Cons.prems(1) have lst: "is_list (heap s) (head s) (pre @ c # rest)" and al: "alloc_ok s"
    by (simp_all add: collection_def)
  have ld: "load ind s = Inr (Some (e_addr c))"
    using load_cell [OF lst Cons.prems(2)] by simp
  from is_list_suffix [OF lst] obtain nc where nc: "heap s (e_addr c) = Some nc"
    "task nc = e_task c" "startTime nc = e_start c" "duration nc = e_dur c"
    by (auto simp: is_list_Cons)
  have dist: "distinct (map e_addr (pre @ c # rest))" using lst by (rule is_list_distinct)
  show ?case
  proof (cases "live t c")
    case True
    let ?s0 = "s\<lparr>invoked := invoked s @ [(e_addr c, e_task c)]\<rparr>"
    have "collection ?s0 (pre @ c # rest)" using Cons.prems(1) by simp
    from task_step [OF ok this, of "e_task c"] obtain s1 new1 where
      call: "Task_call (tasks (e_task c)) ?s0 = Inr s1"
      and col1: "collection s1 (new1 @ pre @ c # rest)"
      and new1: "\<forall>e\<in>set new1. next_free s \<le> e_addr e"
      and nf1: "next_free s \<le> next_free s1"
      and fr1: "\<forall>a. a < next_free s \<longrightarrow> heap s1 a = heap s a"
      and inv1: "invoked s1 = invoked s @ [(e_addr c, e_task c)]"
      and q1: "tasks_quiet tasks \<longrightarrow> next_free s1 = next_free s \<and> millis_calls s1 = millis_calls s"
      by auto
    have step: "update_loop tasks t ind s = update_loop tasks t (Next (e_addr c)) s1"
      using ld nc True call by (subst update_loop.simps) (simp add: live_def)
    have "collection s1 ((new1 @ pre @ [c]) @ rest)" using col1 by simp
    moreover have "cell (Next (e_addr c)) (new1 @ pre @ [c])" by simp
    ultimately obtain s' new2 where
      res: "update_loop tasks t (Next (e_addr c)) s1 = Some (Inr s')"
      and col': "collection s' (new2 @ (new1 @ pre @ [c]) @ filter (live t) rest)"
      and new2: "\<forall>e\<in>set new2. next_free s1 \<le> e_addr e"
      and nf': "next_free s1 \<le> next_free s'"
      and inv': "invoked s' = invoked s1 @ map call_of (filter (live t) rest)"
      and fr': "\<forall>a. a < next_free s1 \<longrightarrow> a \<notin> e_addr ` set ((new1 @ pre @ [c]) @ rest) \<longrightarrow>
                  heap s' a = heap s1 a"
      and rm': "\<forall>e\<in>set rest. \<not> live t e \<longrightarrow> heap s' (e_addr e) = None"
      and q': "tasks_quiet tasks \<longrightarrow> next_free s' = next_free s1 \<and> millis_calls s' = millis_calls s1"
      and e': "filter (live t) rest = [] \<longrightarrow> new2 = [] \<and> uptime s' = uptime s1"
      using Cons.IH [of s1 "new1 @ pre @ [c]" "Next (e_addr c)"] by blast
    have c1: "update_loop tasks t ind s = Some (Inr s')" using step res by simp
    have c2: "collection s' ((new2 @ new1) @ pre @ filter (live t) (c # rest))"
      using col' True by simp
    have c3: "\<forall>e\<in>set (new2 @ new1). next_free s \<le> e_addr e"
      using new1 new2 nf1 by auto
    have c4: "next_free s \<le> next_free s'" using nf1 nf' by simp
    have c5: "invoked s' = invoked s @ map call_of (filter (live t) (c # rest))"
      using inv' inv1 True by (simp add: call_of_def)
    have c6: "\<forall>a. a < next_free s \<longrightarrow> a \<notin> e_addr ` set (pre @ c # rest) \<longrightarrow> heap s' a = heap s a"
    proof (intro allI impI)
      fix a assume a: "a < next_free s" "a \<notin> e_addr ` set (pre @ c # rest)"
      from a(1) new1 have "a \<notin> e_addr ` set new1" by auto
      with a have "a \<notin> e_addr ` set ((new1 @ pre @ [c]) @ rest)" by auto
      moreover have "a < next_free s1" using a(1) nf1 by simp
      ultimately have "heap s' a = heap s1 a" using fr' by blast
      then show "heap s' a = heap s a" using fr1 a(1) by simp
    qed
    have c7: "\<forall>e\<in>set (c # rest). \<not> live t e \<longrightarrow> heap s' (e_addr e) = None"
      using rm' True by auto
    have c8: "tasks_quiet tasks \<longrightarrow> next_free s' = next_free s \<and> millis_calls s' = millis_calls s"
      using q1 q' by simp
    have c9: "filter (live t) (c # rest) = [] \<longrightarrow> new2 @ new1 = [] \<and> uptime s' = uptime s"
      using True by simp
    from c1 c2 c3 c4 c5 c6 c7 c8 c9 show ?thesis by blast
  next
    case False
    from unlink_collection [OF Cons.prems(1) Cons.prems(2) nc(1)] obtain s2 where
      st: "store ind (next nc) s = Inr s2"
      and col2: "collection (s2\<lparr>heap := (heap s2)(e_addr c := None)\<rparr>) (pre @ rest)"
      and nf2: "next_free s2 = next_free s" and inv2: "invoked s2 = invoked s"
      and mc2: "millis_calls s2 = millis_calls s" and up2: "uptime s2 = uptime s"
      and fr2: "\<forall>a. a \<notin> e_addr ` set (pre @ c # rest) \<longrightarrow> heap s2 a = heap s a"
      by blast
    let ?s2 = "s2\<lparr>heap := (heap s2)(e_addr c := None)\<rparr>"
    have step: "update_loop tasks t ind s = update_loop tasks t ind ?s2"
      using ld nc False st by (subst update_loop.simps) (simp add: live_def)
    from Cons.IH [OF col2 Cons.prems(2)] obtain s' new where
      res: "update_loop tasks t ind ?s2 = Some (Inr s')"
      and col': "collection s' (new @ pre @ filter (live t) rest)"
      and new: "\<forall>e\<in>set new. next_free ?s2 \<le> e_addr e"
      and nf': "next_free ?s2 \<le> next_free s'"
      and inv': "invoked s' = invoked ?s2 @ map call_of (filter (live t) rest)"
      and fr': "\<forall>a. a < next_free ?s2 \<longrightarrow> a \<notin> e_addr ` set (pre @ rest) \<longrightarrow>
                  heap s' a = heap ?s2 a"
      and rm': "\<forall>e\<in>set rest. \<not> live t e \<longrightarrow> heap s' (e_addr e) = None"
      and q': "tasks_quiet tasks \<longrightarrow> next_free s' = next_free ?s2 \<and> millis_calls s' = millis_calls ?s2"
      and e': "filter (live t) rest = [] \<longrightarrow> new = [] \<and> uptime s' = uptime ?s2"
      by blast
    have c1: "update_loop tasks t ind s = Some (Inr s')" using step res by simp
    have c2: "collection s' (new @ pre @ filter (live t) (c # rest))"
      using col' False by simp
    have c3: "\<forall>e\<in>set new. next_free s \<le> e_addr e" using new nf2 by simp
    have c4: "next_free s \<le> next_free s'" using nf' nf2 by simp
    have c5: "invoked s' = invoked s @ map call_of (filter (live t) (c # rest))"
      using inv' inv2 False by simp
    have c6: "\<forall>a. a < next_free s \<longrightarrow> a \<notin> e_addr ` set (pre @ c # rest) \<longrightarrow> heap s' a = heap s a"
    proof (intro allI impI)
      fix a assume a: "a < next_free s" "a \<notin> e_addr ` set (pre @ c # rest)"
      then have "a \<notin> e_addr ` set (pre @ rest)" "a \<noteq> e_addr c" by auto
      then have "heap s' a = heap s2 a" using fr' a(1) nf2 by simp
      then show "heap s' a = heap s a" using fr2 a(2) by simp
    qed
    have "e_addr c < next_free s" using al nc(1) by (rule alloc_ok_lt)
    moreover have "e_addr c \<notin> e_addr ` set (pre @ rest)" using dist by auto
    ultimately have "heap s' (e_addr c) = None" using fr' nf2 by simp
    then have c7: "\<forall>e\<in>set (c # rest). \<not> live t e \<longrightarrow> heap s' (e_addr e) = None"
      using rm' by simp
    have c8: "tasks_quiet tasks \<longrightarrow> next_free s' = next_free s \<and> millis_calls s' = millis_calls s"
      using q' nf2 mc2 by simp
    have c9: "filter (live t) (c # rest) = [] \<longrightarrow> new = [] \<and> uptime s' = uptime s"
      using e' up2 False by simp
    from c1 c2 c3 c4 c5 c6 c7 c8 c9 show ?thesis by blast
  qed
qed

lemma is_list_mem:
  "is_list h p es \<Longrightarrow> e \<in> set es \<Longrightarrow> \<exists>n. h (e_addr e) = Some n"
  by (induction es arbitrary: p) (auto simp: is_list_Cons)

lemma collection_addr_lt:
  "collection s es \<Longrightarrow> e \<in> set es \<Longrightarrow> e_addr e < next_free s"
  unfolding collection_def using is_list_mem alloc_ok_lt by blast

lemma collection_distinct: "collection s es \<Longrightarrow> distinct (map e_addr es)"
  unfolding collection_def using is_list_distinct by blast

lemma collection_unique: "collection s es \<Longrightarrow> collection s es' \<Longrightarrow> es = es'"
  unfolding collection_def using is_list_unique by blast

lemma calls_during_append: "invoked s' = invoked s @ cs \<Longrightarrow> calls_during s s' = cs"
  by (simp add: calls_during_def)

section \<open>What update does to a collection\<close>

lemma update_collection:
  assumes ok: "tasks_ok tasks" and col: "collection s es"
  shows "\<exists>s' new. update tasks s = Some (Inr s') \<and>
       collection s' (new @ filter (live (of_nat (uptime s))) es) \<and>
       (\<forall>e\<in>set new. next_free s \<le> e_addr e) \<and>
       next_free s \<le> next_free s' \<and>
       calls_during s s' = map call_of (filter (live (of_nat (uptime s))) es) \<and>
       (\<forall>a. a < next_free s \<longrightarrow> a \<notin> e_addr ` set es \<longrightarrow> heap s' a = heap s a) \<and>
       (\<forall>e\<in>set es. \<not> live (of_nat (uptime s)) e \<longrightarrow> heap s' (e_addr e) = None) \<and>
       (tasks_quiet tasks \<longrightarrow> new = [] \<and> millis_calls s' = Suc (millis_calls s)) \<and>
       (filter (live (of_nat (uptime s))) es = [] \<longrightarrow> new = [] \<and> uptime s' = uptime s)"
proof -
  let ?t = "of_nat (uptime s) :: ulong"
  let ?s1 = "s\<lparr>millis_calls := Suc (millis_calls s)\<rparr>"
  have upd: "update tasks s = update_loop tasks ?t Head ?s1"
    by (simp add: update_def millis_def)
  have "collection ?s1 ([] @ es)" using col by simp
  moreover have "cell Head []" by simp
  ultimately obtain s' new where
    res: "update_loop tasks ?t Head ?s1 = Some (Inr s')"
    and col': "collection s' (new @ [] @ filter (live ?t) es)"
    and new: "\<forall>e\<in>set new. next_free ?s1 \<le> e_addr e"
    and nf: "next_free ?s1 \<le> next_free s'"
    and inv: "invoked s' = invoked ?s1 @ map call_of (filter (live ?t) es)"
    and fr: "\<forall>a. a < next_free ?s1 \<longrightarrow> a \<notin> e_addr ` set ([] @ es) \<longrightarrow> heap s' a = heap ?s1 a"
    and rm: "\<forall>e\<in>set es. \<not> live ?t e \<longrightarrow> heap s' (e_addr e) = None"
    and q: "tasks_quiet tasks \<longrightarrow> next_free s' = next_free ?s1 \<and> millis_calls s' = millis_calls ?s1"
    and em: "filter (live ?t) es = [] \<longrightarrow> new = [] \<and> uptime s' = uptime ?s1"
    using update_loop_collection [OF ok, of ?s1 "[]" es Head ?t] by blast
  have qn: "tasks_quiet tasks \<longrightarrow> new = []"
  proof
    assume "tasks_quiet tasks"
    with q have eq: "next_free s' = next_free s" by simp
    show "new = []"
    proof (rule ccontr)
      assume "new \<noteq> []"
      then obtain e where e: "e \<in> set new" by (cases new) auto
      then have "e_addr e < next_free s'" using collection_addr_lt [OF col'] by simp
      moreover have "next_free s \<le> e_addr e" using new e by simp
      ultimately show False using eq by simp
    qed
  qed
  have c1: "update tasks s = Some (Inr s')" using upd res by simp
  have c2: "collection s' (new @ filter (live ?t) es)" using col' by simp
  have c3: "\<forall>e\<in>set new. next_free s \<le> e_addr e" using new by simp
  have c4: "next_free s \<le> next_free s'" using nf by simp
  have c5: "calls_during s s' = map call_of (filter (live ?t) es)"
    using inv by (intro calls_during_append) simp
  have c6: "\<forall>a. a < next_free s \<longrightarrow> a \<notin> e_addr ` set es \<longrightarrow> heap s' a = heap s a"
    using fr by simp
  have c8: "tasks_quiet tasks \<longrightarrow> new = [] \<and> millis_calls s' = Suc (millis_calls s)"
    using q qn by simp
  have c9: "filter (live ?t) es = [] \<longrightarrow> new = [] \<and> uptime s' = uptime s"
    using em by simp
  from c1 c2 c3 c4 c5 c6 rm c8 c9 show ?thesis by blast
qed

section \<open>What execute does to a collection\<close>

lemma execute_collection:
  assumes "collection s es"
  shows "collection (execute tp d s)
           (\<lparr>e_addr = next_free s, e_task = tp, e_start = of_nat (uptime s), e_dur = d\<rparr> # es)"
    and "next_free (execute tp d s) = Suc (next_free s)"
    and "head (execute tp d s) = Some (next_free s)"
    and "\<forall>a. a \<noteq> next_free s \<longrightarrow> heap (execute tp d s) a = heap s a"
    and "invoked (execute tp d s) = invoked s"
    and "uptime (execute tp d s) = uptime s"
    and "millis_calls (execute tp d s) = Suc (millis_calls s)"
proof -
  from assms have lst: "is_list (heap s) (head s) es" and al: "alloc_ok s"
    by (simp_all add: collection_def)
  from al have free: "heap s (next_free s) = None" by (simp add: alloc_ok_def)
  let ?n = "\<lparr>task = tp, startTime = of_nat (uptime s), duration = d, next = head s\<rparr>"
  have ex: "execute tp d s =
      s\<lparr>next_free := Suc (next_free s), millis_calls := Suc (millis_calls s),
        heap := (heap s)(next_free s \<mapsto> ?n), head := Some (next_free s)\<rparr>"
    by (simp add: execute_def millis_def Let_def)
  have "\<forall>e\<in>set es. e_addr e \<noteq> next_free s"
    using is_list_mem [OF lst] free by (metis option.distinct(1))
  then have "is_list ((heap s)(next_free s \<mapsto> ?n)) (head s) es"
    by (intro is_list_frame [OF lst]) simp
  then have "is_list (heap (execute tp d s)) (head (execute tp d s))
      (\<lparr>e_addr = next_free s, e_task = tp, e_start = of_nat (uptime s), e_dur = d\<rparr> # es)"
    unfolding ex by (intro is_list_ConsI [where n = ?n]) simp_all
  moreover have "alloc_ok (execute tp d s)"
    using al unfolding ex by (simp add: alloc_ok_def)
  ultimately show "collection (execute tp d s)
           (\<lparr>e_addr = next_free s, e_task = tp, e_start = of_nat (uptime s), e_dur = d\<rparr> # es)"
    by (simp add: collection_def)
  show "next_free (execute tp d s) = Suc (next_free s)" by (simp add: ex)
  show "head (execute tp d s) = Some (next_free s)" by (simp add: ex)
  show "\<forall>a. a \<noteq> next_free s \<longrightarrow> heap (execute tp d s) a = heap s a" by (simp add: ex)
  show "invoked (execute tp d s) = invoked s" by (simp add: ex)
  show "uptime (execute tp d s) = uptime s" by (simp add: ex)
  show "millis_calls (execute tp d s) = Suc (millis_calls s)" by (simp add: ex)
qed

lemma execute_well_behaved: "well_behaved (execute tp d)"
  unfolding well_behaved_def
proof (intro allI impI)
  fix s es assume col: "collection s es"
  let ?e = "\<lparr>e_addr = next_free s, e_task = tp, e_start = of_nat (uptime s), e_dur = d\<rparr>"
  from execute_collection [OF col, of tp d]
  show "\<exists>new. collection (execute tp d s) (new @ es) \<and>
           (\<forall>e \<in> set new. next_free s \<le> e_addr e) \<and>
           next_free s \<le> next_free (execute tp d s) \<and>
           (\<forall>a. a < next_free s \<longrightarrow> heap (execute tp d s) a = heap s a) \<and>
           invoked (execute tp d s) = invoked s"
    by (intro exI [of _ "[?e]"]) simp
qed

text \<open>A callable may do several such things in a row, for instance call \<^verbatim>\<open>execute\<close> twice.\<close>

lemma well_behaved_comp:
  assumes f: "well_behaved f" and g: "well_behaved g"
  shows "well_behaved (\<lambda>s. g (f s))"
  unfolding well_behaved_def
proof (intro allI impI)
  fix s es assume col: "collection s es"
  with f obtain n1 where 1: "collection (f s) (n1 @ es)" "\<forall>e\<in>set n1. next_free s \<le> e_addr e"
    "next_free s \<le> next_free (f s)" "\<forall>a. a < next_free s \<longrightarrow> heap (f s) a = heap s a"
    "invoked (f s) = invoked s"
    unfolding well_behaved_def by blast
  from g 1(1) obtain n2 where 2: "collection (g (f s)) (n2 @ n1 @ es)"
    "\<forall>e\<in>set n2. next_free (f s) \<le> e_addr e"
    "next_free (f s) \<le> next_free (g (f s))" "\<forall>a. a < next_free (f s) \<longrightarrow> heap (g (f s)) a = heap (f s) a"
    "invoked (g (f s)) = invoked (f s)"
    unfolding well_behaved_def by blast
  have "collection (g (f s)) ((n2 @ n1) @ es)" using 2(1) by simp
  moreover have "\<forall>e\<in>set (n2 @ n1). next_free s \<le> e_addr e" using 1(2,3) 2(2) by auto
  moreover have "next_free s \<le> next_free (g (f s))" using 1(3) 2(3) by simp
  moreover have "\<forall>a. a < next_free s \<longrightarrow> heap (g (f s)) a = heap s a" using 1(3,4) 2(4) by simp
  moreover have "invoked (g (f s)) = invoked s" using 1(5) 2(5) by simp
  ultimately show "\<exists>new. collection (g (f s)) (new @ es) \<and>
           (\<forall>e \<in> set new. next_free s \<le> e_addr e) \<and>
           next_free s \<le> next_free (g (f s)) \<and>
           (\<forall>a. a < next_free s \<longrightarrow> heap (g (f s)) a = heap s a) \<and>
           invoked (g (f s)) = invoked s"
    by blast
qed

lemma collection_boot: "collection boot []"
  by (simp add: collection_def boot_def alloc_ok_def)

lemma count_list_distinct: "distinct xs \<Longrightarrow> x \<in> set xs \<Longrightarrow> count_list xs x = 1"
  by (induction xs) auto

lemma tasks_quiet_ok: "tasks_quiet tasks \<Longrightarrow> tasks_ok tasks"
  by (simp add: tasks_quiet_def tasks_ok_def quiet_well_behaved)

lemma tasks_ok_demo: "tasks_ok demo_tasks"
proof -
  have "well_behaved (\<lambda>s. s\<lparr>uptime := uptime s + 100\<rparr>)"
    by (rule quiet_well_behaved) (simp add: quiet_def)
  then show ?thesis
    by (simp add: tasks_ok_def demo_tasks_def execute_well_behaved)
qed

lemma map_fst_call_of: "map fst (map call_of es) = map e_addr es"
  by (simp add: call_of_def)

lemma entry_in_filter:
  assumes "distinct (map e_addr es)" and "e \<in> set es" and "\<not> P e"
  shows "e_addr e \<notin> e_addr ` set (filter P es)"
proof
  assume "e_addr e \<in> e_addr ` set (filter P es)"
  then obtain e' where e': "e' \<in> set es" "P e'" "e_addr e' = e_addr e" by auto
  with assms(1,2) have "e' = e" by (meson distinct_map inj_onD)
  with e' assms(3) show False by simp
qed

text \<open>What one call of update does to one entry of the collection.\<close>

lemma update_entry:
  assumes ok: "tasks_ok tasks" and col: "collection s es"
  shows "\<exists>s' new. update tasks s = Some (Inr s') \<and>
       collection s' (new @ filter (live (of_nat (uptime s))) es) \<and>
       calls_during s s' = map call_of (filter (live (of_nat (uptime s))) es) \<and>
       (\<forall>e\<in>set new. e_addr e \<notin> e_addr ` set es \<and> e_addr e \<notin> fst ` set (calls_during s s')) \<and>
       (\<forall>e\<in>set es. live (of_nat (uptime s)) e \<longrightarrow>
            count_list (calls_during s s') (call_of e) = 1 \<and>
            count_list (map fst (calls_during s s')) (e_addr e) = 1) \<and>
       (\<forall>e\<in>set es. \<not> live (of_nat (uptime s)) e \<longrightarrow>
            heap s' (e_addr e) = None \<and>
            e_addr e \<notin> fst ` set (calls_during s s') \<and>
            e_addr e \<notin> e_addr ` set (new @ filter (live (of_nat (uptime s))) es)) \<and>
       (tasks_quiet tasks \<longrightarrow> new = [] \<and> millis_calls s' = Suc (millis_calls s)) \<and>
       (filter (live (of_nat (uptime s))) es = [] \<longrightarrow> new = [] \<and> uptime s' = uptime s)"
proof -
  let ?t = "of_nat (uptime s) :: ulong"
  let ?kept = "filter (live ?t) es"
  from update_collection [OF ok col] obtain s' new where
    res: "update tasks s = Some (Inr s')"
    and col': "collection s' (new @ ?kept)"
    and new: "\<forall>e\<in>set new. next_free s \<le> e_addr e"
    and calls: "calls_during s s' = map call_of ?kept"
    and rm: "\<forall>e\<in>set es. \<not> live ?t e \<longrightarrow> heap s' (e_addr e) = None"
    and q: "tasks_quiet tasks \<longrightarrow> new = [] \<and> millis_calls s' = Suc (millis_calls s)"
    and em: "?kept = [] \<longrightarrow> new = [] \<and> uptime s' = uptime s"
    by blast
  have dist: "distinct (map e_addr es)" using col by (rule collection_distinct)
  have old: "\<forall>e\<in>set es. e_addr e < next_free s" using collection_addr_lt [OF col] by blast
  have fst_calls: "map fst (calls_during s s') = map e_addr ?kept"
    unfolding calls by (rule map_fst_call_of)
  have fresh: "\<forall>e\<in>set new. e_addr e \<notin> e_addr ` set es"
    using new old by fastforce
  have c4: "\<forall>e\<in>set new. e_addr e \<notin> e_addr ` set es \<and> e_addr e \<notin> fst ` set (calls_during s s')"
  proof
    fix e assume e: "e \<in> set new"
    have "fst ` set (calls_during s s') = e_addr ` set ?kept"
      using fst_calls by (metis list.set_map)
    then have "fst ` set (calls_during s s') \<subseteq> e_addr ` set es" by auto
    then show "e_addr e \<notin> e_addr ` set es \<and> e_addr e \<notin> fst ` set (calls_during s s')"
      using fresh e by blast
  qed
  have c5: "\<forall>e\<in>set es. live ?t e \<longrightarrow>
            count_list (calls_during s s') (call_of e) = 1 \<and>
            count_list (map fst (calls_during s s')) (e_addr e) = 1"
  proof (intro ballI impI)
    fix e assume e: "e \<in> set es" "live ?t e"
    have d1: "distinct (map e_addr ?kept)" using dist by (simp add: distinct_map_filter)
    then have d2: "distinct (map call_of ?kept)"
      by (metis distinct_map map_fst_call_of)
    have "count_list (map call_of ?kept) (call_of e) = 1"
      using d2 e by (intro count_list_distinct) simp_all
    moreover have "count_list (map e_addr ?kept) (e_addr e) = 1"
      using d1 e by (intro count_list_distinct) simp_all
    ultimately show "count_list (calls_during s s') (call_of e) = 1 \<and>
            count_list (map fst (calls_during s s')) (e_addr e) = 1"
      by (simp only: calls map_fst_call_of)
  qed
  have c6: "\<forall>e\<in>set es. \<not> live ?t e \<longrightarrow>
            heap s' (e_addr e) = None \<and>
            e_addr e \<notin> fst ` set (calls_during s s') \<and>
            e_addr e \<notin> e_addr ` set (new @ ?kept)"
  proof (intro ballI impI)
    fix e assume e: "e \<in> set es" "\<not> live ?t e"
    have k: "e_addr e \<notin> e_addr ` set ?kept" using dist e by (rule entry_in_filter)
    have "fst ` set (calls_during s s') = e_addr ` set ?kept"
      using fst_calls by (metis list.set_map)
    with k have "e_addr e \<notin> fst ` set (calls_during s s')" by simp
    moreover have "e_addr e \<notin> e_addr ` set new" using new old e(1) by fastforce
    ultimately show "heap s' (e_addr e) = None \<and>
            e_addr e \<notin> fst ` set (calls_during s s') \<and>
            e_addr e \<notin> e_addr ` set (new @ ?kept)"
      using rm e k by auto
  qed
  from res col' calls c4 c5 c6 q em show ?thesis by blast
qed

section \<open>The states of the examples\<close>

lemma two_entries_eq: "two_entries = \<lparr>head = Some 1,
   heap = [0 \<mapsto> \<lparr>task = 0, startTime = 100, duration = 5, next = None\<rparr>,
           1 \<mapsto> \<lparr>task = 1, startTime = 103, duration = 20, next = Some 0\<rparr>],
   next_free = 2, uptime = 110, millis_calls = 2, invoked = []\<rparr>"
  by (simp add: two_entries_def execute_def millis_def boot_def)

lemma collection_two_entries:
  "collection two_entries
     [\<lparr>e_addr = 1, e_task = 1, e_start = 103, e_dur = 20\<rparr>,
      \<lparr>e_addr = 0, e_task = 0, e_start = 100, e_dur = 5\<rparr>]"
  by (simp add: two_entries_eq collection_def alloc_ok_def is_list.simps)

lemma two_entries_fields:
  "uptime two_entries = 110" "millis_calls two_entries = 2" "next_free two_entries = 2"
  by (simp_all add: two_entries_eq)

lemma tasks_quiet_slow: "tasks_quiet slow_tasks"
  by (simp add: tasks_quiet_def slow_tasks_def quiet_def)

lemma slow_first_eq: "slow_first = \<lparr>head = Some 1,
   heap = [0 \<mapsto> \<lparr>task = 0, startTime = 100, duration = 50, next = None\<rparr>,
           1 \<mapsto> \<lparr>task = 3, startTime = 103, duration = 20, next = Some 0\<rparr>],
   next_free = 2, uptime = 110, millis_calls = 2, invoked = []\<rparr>"
  by (simp add: slow_first_def execute_def millis_def boot_def)

lemma slow_first_fields:
  "uptime slow_first = 110" "millis_calls slow_first = 2" "next_free slow_first = 2"
  by (simp_all add: slow_first_eq)

lemma collection_slow_first:
  "collection slow_first
     [\<lparr>e_addr = 1, e_task = 3, e_start = 103, e_dur = 20\<rparr>,
      \<lparr>e_addr = 0, e_task = 0, e_start = 100, e_dur = 50\<rparr>]"
  by (simp add: slow_first_eq collection_def alloc_ok_def is_list.simps)

lemma update_slow_first: "update slow_tasks slow_first = Some (Inr
  (slow_first\<lparr>uptime := 210, millis_calls := 3, invoked := [(1, 3), (0, 0)]\<rparr>))"
  apply (simp add: slow_first_eq update_def millis_def)
  apply (subst update_loop.simps)
  apply (simp add: Task_call_Inr slow_tasks_def)
  apply (subst update_loop.simps)
  apply (simp add: Task_call_Inr slow_tasks_def)
  apply (subst update_loop.simps)
  apply (simp add: Task_call_Inr slow_tasks_def)
  done

lemma fst_millis [simp]: "fst (millis s) = of_nat (uptime s)"
  by (simp add: millis_def)

lemma update_empty:
  "head s = None \<Longrightarrow> update tasks s = Some (Inr (s\<lparr>millis_calls := Suc (millis_calls s)\<rparr>))"
  by (simp add: update_def millis_def, subst update_loop.simps) simp

lemma wrap_entry_eq: "wrap_entry = \<lparr>head = Some 0,
   heap = [0 \<mapsto> \<lparr>task = 0, startTime = of_nat (2 ^ 32 - 5), duration = 10, next = None\<rparr>],
   next_free = 1, uptime = 2 ^ 32 - 5, millis_calls = 1, invoked = []\<rparr>"
  by (simp add: wrap_entry_def execute_def millis_def boot_def)

lemma collection_wrap_entry:
  "collection (wrap_entry\<lparr>uptime := u\<rparr>)
     [\<lparr>e_addr = 0, e_task = 0, e_start = of_nat (2 ^ 32 - 5), e_dur = 10\<rparr>]"
  by (simp add: wrap_entry_eq collection_def alloc_ok_def is_list.simps)

lemma two_entries_start [simp]: "invoked two_entries = []" "head two_entries = Some 1"
  by (simp_all add: two_entries_eq)

lemma update_two_entries: "update demo_tasks two_entries = Some (Inr
  \<lparr>head = Some 2,
   heap = [1 \<mapsto> \<lparr>task = 1, startTime = 103, duration = 20, next = None\<rparr>,
           2 \<mapsto> \<lparr>task = 2, startTime = 110, duration = 5, next = Some 1\<rparr>],
   next_free = 3, uptime = 110, millis_calls = 4, invoked = [(1, 1)]\<rparr>)"
  apply (simp add: two_entries_eq update_def millis_def)
  apply (subst update_loop.simps)
  apply (simp add: Task_call_Inr demo_tasks_def execute_def millis_def)
  apply (subst update_loop.simps)
  apply (simp add: Task_call_Inr demo_tasks_def execute_def millis_def)
  apply (subst update_loop.simps)
  apply (simp add: Task_call_Inr demo_tasks_def execute_def millis_def)
  apply (rule ext)
  apply simp
  done

lemma five_entries_eq: "five_entries = \<lparr>head = Some 4,
   heap = [0 \<mapsto> \<lparr>task = 0, startTime = 0, duration = 5, next = None\<rparr>,
           1 \<mapsto> \<lparr>task = 0, startTime = 0, duration = 50, next = Some 0\<rparr>,
           2 \<mapsto> \<lparr>task = 0, startTime = 0, duration = 5, next = Some 1\<rparr>,
           3 \<mapsto> \<lparr>task = 0, startTime = 0, duration = 50, next = Some 2\<rparr>,
           4 \<mapsto> \<lparr>task = 0, startTime = 0, duration = 5, next = Some 3\<rparr>],
   next_free = 5, uptime = 10, millis_calls = 5, invoked = []\<rparr>"
  by (simp add: five_entries_def execute_def millis_def boot_def eval_nat_numeral)

lemma collection_five_entries:
  "collection five_entries
     [\<lparr>e_addr = 4, e_task = 0, e_start = 0, e_dur = 5\<rparr>,
      \<lparr>e_addr = 3, e_task = 0, e_start = 0, e_dur = 50\<rparr>,
      \<lparr>e_addr = 2, e_task = 0, e_start = 0, e_dur = 5\<rparr>,
      \<lparr>e_addr = 1, e_task = 0, e_start = 0, e_dur = 50\<rparr>,
      \<lparr>e_addr = 0, e_task = 0, e_start = 0, e_dur = 5\<rparr>]"
  by (simp add: five_entries_eq collection_def alloc_ok_def is_list.simps)

lemma five_entries_fields: "uptime five_entries = 10"
  by (simp add: five_entries_eq)

lemma collection_sole_entry:
  "collection ((execute 0 5 boot)\<lparr>uptime := 10\<rparr>)
     [\<lparr>e_addr = 0, e_task = 0, e_start = 0, e_dur = 5\<rparr>]"
  by (simp add: execute_def millis_def boot_def collection_def alloc_ok_def is_list.simps)

lemma three_same_eq: "three_same = \<lparr>head = Some 2,
   heap = [0 \<mapsto> \<lparr>task = 3, startTime = 0, duration = 5, next = None\<rparr>,
           1 \<mapsto> \<lparr>task = 3, startTime = 1, duration = 50, next = Some 0\<rparr>,
           2 \<mapsto> \<lparr>task = 3, startTime = 2, duration = 500, next = Some 1\<rparr>],
   next_free = 3, uptime = 10, millis_calls = 3, invoked = []\<rparr>"
  by (simp add: three_same_def execute_def millis_def boot_def eval_nat_numeral)

lemma collection_three_same:
  "collection three_same
     [\<lparr>e_addr = 2, e_task = 3, e_start = 2, e_dur = 500\<rparr>,
      \<lparr>e_addr = 1, e_task = 3, e_start = 1, e_dur = 50\<rparr>,
      \<lparr>e_addr = 0, e_task = 3, e_start = 0, e_dur = 5\<rparr>]"
  by (simp add: three_same_eq collection_def alloc_ok_def is_list.simps)

lemma three_same_fields: "uptime three_same = 10"
  by (simp add: three_same_eq)

section \<open>The clock across a wraparound\<close>

lemma elapsed_exact:
  assumes "t0 \<le> t1" and "t1 - t0 < 2 ^ 32"
  shows "unat (of_nat t1 - of_nat t0 :: ulong) = t1 - t0"
proof -
  have "(of_nat t1 - of_nat t0 :: ulong) = of_nat (t1 - t0)"
    using assms(1) by (simp add: of_nat_diff)
  then show ?thesis using assms(2) by (simp add: unat_of_nat)
qed

lemma live_exact:
  assumes "e_start e = of_nat t0" and "t0 \<le> t1" and "t1 - t0 < 2 ^ 32"
  shows "live (of_nat t1) e \<longleftrightarrow> t1 - t0 < unat (e_dur e)"
  using elapsed_exact [OF assms(2,3)] assms(1) by (simp add: live_def word_less_nat_alt)

section \<open>Scheduling one task many times\<close>

lemma schedule_all_collection:
  "collection s es \<Longrightarrow>
   \<exists>new. collection (schedule_all tp ds s) (new @ es) \<and> length new = length ds \<and>
      map e_dur new = rev (map snd ds) \<and> (\<forall>e\<in>set new. e_task e = tp)"
proof (induction ds arbitrary: s es)
  case Nil
  then show ?case by simp
next
  case (Cons wd ds)
  obtain wait d where wd: "wd = (wait, d)" by (cases wd)
  let ?s1 = "s\<lparr>uptime := uptime s + wait\<rparr>"
  let ?e = "\<lparr>e_addr = next_free ?s1, e_task = tp, e_start = of_nat (uptime ?s1), e_dur = d\<rparr>"
  have "collection ?s1 es" using Cons.prems by simp
  then have "collection (execute tp d ?s1) (?e # es)" by (rule execute_collection(1))
  from Cons.IH [OF this] obtain new where
    new: "collection (schedule_all tp ds (execute tp d ?s1)) (new @ ?e # es)"
    "length new = length ds" "map e_dur new = rev (map snd ds)" "\<forall>e\<in>set new. e_task e = tp"
    by blast
  have "collection (schedule_all tp (wd # ds) s) ((new @ [?e]) @ es)"
    using new(1) wd by simp
  moreover have "length (new @ [?e]) = length (wd # ds)" using new(2) by simp
  moreover have "map e_dur (new @ [?e]) = rev (map snd (wd # ds))" using new(3) wd by simp
  moreover have "\<forall>e\<in>set (new @ [?e]). e_task e = tp" using new(4) by simp
  ultimately show ?case by blast
qed

section \<open>The claims\<close>

text \<open>
  Claim C1, as amended: the elapsed time of an entry is the 32-bit unsigned difference
  \<^verbatim>\<open>currentTime - startTime\<close>. For an entry scheduled at uptime \<open>t0\<close> and checked at an
  uptime less than \<open>2^32\<close> ms later, whether or not the clock wrapped in between, this
  difference is the true elapsed time, so the entry is invoked once and kept exactly
  when the true elapsed time is below its duration, and is removed without invocation
  otherwise; this holds for every duration. The example of the claim is the witness: an
  entry with start time \<open>W - 5\<close> and duration 10 (\<open>W = 2^32\<close>) is invoked at clock value
  \<open>W - 1\<close> and again at clock value 3, and is removed at clock value 5.
\<close>

theorem C1_elapsed_is_exact_within_one_period:
  assumes "tasks_ok tasks" and "collection s es" and "e \<in> set es"
    and "e_start e = of_nat t0" and "t0 \<le> uptime s" and "uptime s - t0 < 2 ^ 32"
  shows "unat (fst (millis s) - e_start e) = uptime s - t0 \<and>
     (\<exists>s' es'. update tasks s = Some (Inr s') \<and> collection s' es' \<and>
        (if uptime s - t0 < unat (e_dur e)
         then count_list (calls_during s s') (call_of e) = 1 \<and> e \<in> set es'
         else e_addr e \<notin> fst ` set (calls_during s s') \<and> e_addr e \<notin> e_addr ` set es' \<and>
              heap s' (e_addr e) = None))"
proof -
  let ?t = "of_nat (uptime s) :: ulong"
  have el: "unat (fst (millis s) - e_start e) = uptime s - t0"
    using elapsed_exact [OF assms(5,6)] assms(4) by simp
  have lv: "live ?t e \<longleftrightarrow> uptime s - t0 < unat (e_dur e)"
    using assms(4-6) by (rule live_exact)
  from update_entry [OF assms(1,2)] obtain s' new where
    res: "update tasks s = Some (Inr s')"
    and col': "collection s' (new @ filter (live ?t) es)"
    and live: "\<forall>e\<in>set es. live ?t e \<longrightarrow>
            count_list (calls_during s s') (call_of e) = 1 \<and>
            count_list (map fst (calls_during s s')) (e_addr e) = 1"
    and ex: "\<forall>e\<in>set es. \<not> live ?t e \<longrightarrow>
            heap s' (e_addr e) = None \<and>
            e_addr e \<notin> fst ` set (calls_during s s') \<and>
            e_addr e \<notin> e_addr ` set (new @ filter (live ?t) es)"
    by blast
  have "if uptime s - t0 < unat (e_dur e)
         then count_list (calls_during s s') (call_of e) = 1 \<and> e \<in> set (new @ filter (live ?t) es)
         else e_addr e \<notin> fst ` set (calls_during s s') \<and>
              e_addr e \<notin> e_addr ` set (new @ filter (live ?t) es) \<and>
              heap s' (e_addr e) = None"
  proof (cases "live ?t e")
    case True
    then show ?thesis using live assms(3) lv by simp
  next
    case False
    then show ?thesis using ex assms(3) lv by simp
  qed
  with el res col' show ?thesis by blast
qed

theorem C1_witness:
  "(\<exists>s' es'. update demo_tasks (wrap_entry\<lparr>uptime := 2 ^ 32 - 1\<rparr>) = Some (Inr s') \<and>
      collection s' es' \<and> fst (millis (wrap_entry\<lparr>uptime := 2 ^ 32 - 1\<rparr>)) = 4294967295 \<and>
      count_list (calls_during (wrap_entry\<lparr>uptime := 2 ^ 32 - 1\<rparr>) s') (0, 0) = 1 \<and>
      \<lparr>e_addr = 0, e_task = 0, e_start = of_nat (2 ^ 32 - 5), e_dur = 10\<rparr> \<in> set es') \<and>
   (\<exists>s' es'. update demo_tasks (wrap_entry\<lparr>uptime := 2 ^ 32 + 3\<rparr>) = Some (Inr s') \<and>
      collection s' es' \<and> fst (millis (wrap_entry\<lparr>uptime := 2 ^ 32 + 3\<rparr>)) = 3 \<and>
      count_list (calls_during (wrap_entry\<lparr>uptime := 2 ^ 32 + 3\<rparr>) s') (0, 0) = 1 \<and>
      \<lparr>e_addr = 0, e_task = 0, e_start = of_nat (2 ^ 32 - 5), e_dur = 10\<rparr> \<in> set es') \<and>
   (\<exists>s' es'. update demo_tasks (wrap_entry\<lparr>uptime := 2 ^ 32 + 5\<rparr>) = Some (Inr s') \<and>
      collection s' es' \<and> fst (millis (wrap_entry\<lparr>uptime := 2 ^ 32 + 5\<rparr>)) = 5 \<and>
      0 \<notin> fst ` set (calls_during (wrap_entry\<lparr>uptime := 2 ^ 32 + 5\<rparr>) s') \<and>
      0 \<notin> e_addr ` set es' \<and> heap s' 0 = None)"
proof -
  let ?e = "\<lparr>e_addr = 0, e_task = 0, e_start = of_nat (2 ^ 32 - 5), e_dur = 10\<rparr>"
  have e: "e_start ?e = of_nat (2 ^ 32 - 5)" by simp
  have m: "?e \<in> set [?e]" by simp
  note t = C1_elapsed_is_exact_within_one_period [OF tasks_ok_demo collection_wrap_entry m e,
      THEN conjunct2]
  have 1: "\<exists>s' es'. update demo_tasks (wrap_entry\<lparr>uptime := 2 ^ 32 - 1\<rparr>) = Some (Inr s') \<and>
      collection s' es' \<and> fst (millis (wrap_entry\<lparr>uptime := 2 ^ 32 - 1\<rparr>)) = 4294967295 \<and>
      count_list (calls_during (wrap_entry\<lparr>uptime := 2 ^ 32 - 1\<rparr>) s') (0, 0) = 1 \<and>
      ?e \<in> set es'"
    using t [of "2 ^ 32 - 1"] by (simp add: call_of_def)
  have 2: "\<exists>s' es'. update demo_tasks (wrap_entry\<lparr>uptime := 2 ^ 32 + 3\<rparr>) = Some (Inr s') \<and>
      collection s' es' \<and> fst (millis (wrap_entry\<lparr>uptime := 2 ^ 32 + 3\<rparr>)) = 3 \<and>
      count_list (calls_during (wrap_entry\<lparr>uptime := 2 ^ 32 + 3\<rparr>) s') (0, 0) = 1 \<and>
      ?e \<in> set es'"
    using t [of "2 ^ 32 + 3"] by (simp add: call_of_def)
  have 3: "\<exists>s' es'. update demo_tasks (wrap_entry\<lparr>uptime := 2 ^ 32 + 5\<rparr>) = Some (Inr s') \<and>
      collection s' es' \<and> fst (millis (wrap_entry\<lparr>uptime := 2 ^ 32 + 5\<rparr>)) = 5 \<and>
      0 \<notin> fst ` set (calls_during (wrap_entry\<lparr>uptime := 2 ^ 32 + 5\<rparr>) s') \<and>
      0 \<notin> e_addr ` set es' \<and> heap s' 0 = None"
    using t [of "2 ^ 32 + 5"] by (simp add: call_of_def)
  from 1 2 3 show ?thesis by blast
qed

text \<open>
  The claim as it stands asks only for one wraparound between scheduling and check, and
  for a duration of at most about half the range. That is not enough: an entry of
  duration 10 scheduled at uptime 0 and first checked at uptime \<open>2^32 + 3\<close>, after exactly
  one wraparound, is invoked and kept (its computed elapsed time is 3), although its true
  elapsed time is far beyond its duration.
\<close>

theorem C1_counterexample:
  "update demo_tasks ((execute 0 10 boot)\<lparr>uptime := 2 ^ 32 + 3\<rparr>) =
     Some (Inr ((execute 0 10 boot)\<lparr>uptime := 2 ^ 32 + 3, millis_calls := 2, invoked := [(0, 0)]\<rparr>)) \<and>
   uptime boot < 2 ^ 32 \<and> 2 ^ 32 \<le> (2 ^ 32 + 3 :: nat) \<and> (2 ^ 32 + 3 :: nat) < 2 * 2 ^ 32 \<and>
   unat (10 :: ulong) \<le> 2 ^ 31 \<and>
   \<not> ((2 ^ 32 + 3) - uptime boot < unat (10 :: ulong))"
  apply (simp add: update_def millis_def execute_def boot_def)
  apply (subst update_loop.simps)
  apply (simp add: Task_call_Inr demo_tasks_def)
  apply (subst update_loop.simps)
  apply (simp add: Task_call_Inr demo_tasks_def)
  done

text \<open>
  Claim C2: let \<open>es\<close> be the entries present when \<^verbatim>\<open>update\<close> is called, and take the
  elapsed time of each against the clock value read at that call. An entry with
  \<open>elapsed < duration\<close> is invoked exactly once in the call (one log record for the entry,
  one for its address) and is kept; an entry with \<open>elapsed \<ge> duration\<close> is not invoked in
  the call, is unlinked and its node is freed. The tasks may themselves call \<^verbatim>\<open>execute\<close>.
\<close>

theorem C2_update_invokes_live_removes_expired:
  assumes "tasks_ok tasks" and "collection s es"
  shows "\<exists>s' es'. update tasks s = Some (Inr s') \<and> collection s' es' \<and>
     (\<forall>e\<in>set es.
        if fst (millis s) - e_start e < e_dur e
        then count_list (calls_during s s') (call_of e) = 1 \<and>
             count_list (map fst (calls_during s s')) (e_addr e) = 1 \<and> e \<in> set es'
        else e_addr e \<notin> fst ` set (calls_during s s') \<and> e_addr e \<notin> e_addr ` set es' \<and>
             heap s' (e_addr e) = None)"
proof -
  let ?t = "of_nat (uptime s) :: ulong"
  from update_entry [OF assms] obtain s' new where
    res: "update tasks s = Some (Inr s')"
    and col': "collection s' (new @ filter (live ?t) es)"
    and lv: "\<forall>e\<in>set es. live ?t e \<longrightarrow>
            count_list (calls_during s s') (call_of e) = 1 \<and>
            count_list (map fst (calls_during s s')) (e_addr e) = 1"
    and ex: "\<forall>e\<in>set es. \<not> live ?t e \<longrightarrow>
            heap s' (e_addr e) = None \<and>
            e_addr e \<notin> fst ` set (calls_during s s') \<and>
            e_addr e \<notin> e_addr ` set (new @ filter (live ?t) es)"
    by blast
  have "\<forall>e\<in>set es.
        if fst (millis s) - e_start e < e_dur e
        then count_list (calls_during s s') (call_of e) = 1 \<and>
             count_list (map fst (calls_during s s')) (e_addr e) = 1 \<and>
             e \<in> set (new @ filter (live ?t) es)
        else e_addr e \<notin> fst ` set (calls_during s s') \<and>
             e_addr e \<notin> e_addr ` set (new @ filter (live ?t) es) \<and>
             heap s' (e_addr e) = None"
  proof
    fix e assume e: "e \<in> set es"
    show "if fst (millis s) - e_start e < e_dur e
        then count_list (calls_during s s') (call_of e) = 1 \<and>
             count_list (map fst (calls_during s s')) (e_addr e) = 1 \<and>
             e \<in> set (new @ filter (live ?t) es)
        else e_addr e \<notin> fst ` set (calls_during s s') \<and>
             e_addr e \<notin> e_addr ` set (new @ filter (live ?t) es) \<and>
             heap s' (e_addr e) = None"
    proof (cases "live ?t e")
      case True
      then show ?thesis using lv e by (simp add: live_def)
    next
      case False
      then show ?thesis using ex e by (simp add: live_def)
    qed
  qed
  with res col' show ?thesis by blast
qed

theorem C2_witness:
  "\<exists>s' es'. update demo_tasks two_entries = Some (Inr s') \<and> collection s' es' \<and>
      count_list (calls_during two_entries s') (1, 1) = 1 \<and>
      count_list (map fst (calls_during two_entries s')) 1 = 1 \<and>
      \<lparr>e_addr = 1, e_task = 1, e_start = 103, e_dur = 20\<rparr> \<in> set es' \<and>
      0 \<notin> fst ` set (calls_during two_entries s') \<and> 0 \<notin> e_addr ` set es' \<and>
      heap s' 0 = None"
  using C2_update_invokes_live_removes_expired [OF tasks_ok_demo collection_two_entries]
  by (simp add: two_entries_eq call_of_def)

text \<open>
  Claim C3: \<^verbatim>\<open>update\<close> reads the clock once, before the loop, and the loop gets that value
  as a parameter: every entry is judged against that one value, however much time the
  tasks let pass during the scan, and with tasks that do not read the clock themselves
  the count of \<^verbatim>\<open>millis()\<close> calls goes up by exactly one.
\<close>

theorem C3_one_clock_reading_per_update:
  assumes "tasks_ok tasks" and "collection s es"
  shows "update tasks s = update_loop tasks (fst (millis s)) Head (snd (millis s)) \<and>
     (\<exists>s' new. update tasks s = Some (Inr s') \<and>
        collection s' (new @ filter (live (fst (millis s))) es) \<and>
        calls_during s s' = map call_of (filter (live (fst (millis s))) es) \<and>
        (tasks_quiet tasks \<longrightarrow> new = [] \<and> millis_calls s' = Suc (millis_calls s)))"
proof -
  have "update tasks s = update_loop tasks (fst (millis s)) Head (snd (millis s))"
    by (simp add: update_def millis_def)
  moreover from update_entry [OF assms]
  have "\<exists>s' new. update tasks s = Some (Inr s') \<and>
        collection s' (new @ filter (live (fst (millis s))) es) \<and>
        calls_during s s' = map call_of (filter (live (fst (millis s))) es) \<and>
        (tasks_quiet tasks \<longrightarrow> new = [] \<and> millis_calls s' = Suc (millis_calls s))"
    unfolding fst_millis by blast
  ultimately show ?thesis by blast
qed

theorem C3_witness:
  "update slow_tasks slow_first =
     Some (Inr (slow_first\<lparr>uptime := 210, millis_calls := 3, invoked := [(1, 3), (0, 0)]\<rparr>)) \<and>
   \<not> live (of_nat 210) \<lparr>e_addr = 0, e_task = 0, e_start = 100, e_dur = 50\<rparr> \<and>
   (\<exists>s'. update slow_tasks slow_first = Some (Inr s') \<and> millis_calls s' = 3 \<and>
      collection s'
        [\<lparr>e_addr = 1, e_task = 3, e_start = 103, e_dur = 20\<rparr>,
         \<lparr>e_addr = 0, e_task = 0, e_start = 100, e_dur = 50\<rparr>] \<and>
      calls_during slow_first s' = [(1, 3), (0, 0)])"
proof -
  have "\<exists>s'. update slow_tasks slow_first = Some (Inr s') \<and> millis_calls s' = 3 \<and>
      collection s'
        [\<lparr>e_addr = 1, e_task = 3, e_start = 103, e_dur = 20\<rparr>,
         \<lparr>e_addr = 0, e_task = 0, e_start = 100, e_dur = 50\<rparr>] \<and>
      calls_during slow_first s' = [(1, 3), (0, 0)]"
    using C3_one_clock_reading_per_update [OF tasks_quiet_ok [OF tasks_quiet_slow]
        collection_slow_first, THEN conjunct2]
    by (auto simp: tasks_quiet_slow slow_first_fields live_def call_of_def)
  then show ?thesis using update_slow_first by (simp add: live_def)
qed

text \<open>
  Claim C4: an entry of duration 0 is never invoked: every invocation an \<^verbatim>\<open>update\<close> call
  makes is for an entry of the collection with a duration other than 0, and every entry
  of duration 0 in the collection is unlinked and freed by that call. So after
  \<^verbatim>\<open>execute\<close> with duration 0 the next \<^verbatim>\<open>update\<close>, whenever it comes, removes the new
  entry without invoking it.
\<close>

theorem C4_zero_duration_is_never_invoked:
  assumes "tasks_ok tasks" and "collection s es"
  shows "(\<exists>s' es'. update tasks s = Some (Inr s') \<and> collection s' es' \<and>
        (\<forall>c\<in>set (calls_during s s'). \<exists>e\<in>set es. call_of e = c \<and> e_dur e \<noteq> 0) \<and>
        (\<forall>e\<in>set es. e_dur e = 0 \<longrightarrow>
           heap s' (e_addr e) = None \<and> e_addr e \<notin> e_addr ` set es' \<and>
           e_addr e \<notin> fst ` set (calls_during s s'))) \<and>
     (\<forall>u. \<exists>s' es'. update tasks ((execute tp 0 s)\<lparr>uptime := u\<rparr>) = Some (Inr s') \<and>
        collection s' es' \<and> heap s' (next_free s) = None \<and>
        next_free s \<notin> e_addr ` set es' \<and>
        next_free s \<notin> fst ` set (calls_during ((execute tp 0 s)\<lparr>uptime := u\<rparr>) s'))"
proof -
  have zero: "\<And>t e. e_dur e = 0 \<Longrightarrow> \<not> live t e" by (simp add: live_def)
  have gen: "\<exists>s' es'. update tasks s = Some (Inr s') \<and> collection s' es' \<and>
        (\<forall>c\<in>set (calls_during s s'). \<exists>e\<in>set es. call_of e = c \<and> e_dur e \<noteq> 0) \<and>
        (\<forall>e\<in>set es. e_dur e = 0 \<longrightarrow>
           heap s' (e_addr e) = None \<and> e_addr e \<notin> e_addr ` set es' \<and>
           e_addr e \<notin> fst ` set (calls_during s s'))"
    if col: "collection s es" for s es
  proof -
    let ?t = "of_nat (uptime s) :: ulong"
    from update_entry [OF assms(1) col] obtain s' new where
      res: "update tasks s = Some (Inr s')"
      and col': "collection s' (new @ filter (live ?t) es)"
      and calls: "calls_during s s' = map call_of (filter (live ?t) es)"
      and ex: "\<forall>e\<in>set es. \<not> live ?t e \<longrightarrow>
            heap s' (e_addr e) = None \<and>
            e_addr e \<notin> fst ` set (calls_during s s') \<and>
            e_addr e \<notin> e_addr ` set (new @ filter (live ?t) es)"
      by blast
    have "\<forall>c\<in>set (calls_during s s'). \<exists>e\<in>set es. call_of e = c \<and> e_dur e \<noteq> 0"
      unfolding calls using zero by auto
    moreover have "\<forall>e\<in>set es. e_dur e = 0 \<longrightarrow>
           heap s' (e_addr e) = None \<and> e_addr e \<notin> e_addr ` set (new @ filter (live ?t) es) \<and>
           e_addr e \<notin> fst ` set (calls_during s s')"
      using ex zero by blast
    ultimately show ?thesis using res col' by blast
  qed
  have "\<exists>s' es'. update tasks ((execute tp 0 s)\<lparr>uptime := u\<rparr>) = Some (Inr s') \<and>
        collection s' es' \<and> heap s' (next_free s) = None \<and>
        next_free s \<notin> e_addr ` set es' \<and>
        next_free s \<notin> fst ` set (calls_during ((execute tp 0 s)\<lparr>uptime := u\<rparr>) s')" for u
  proof -
    let ?e = "\<lparr>e_addr = next_free s, e_task = tp, e_start = of_nat (uptime s), e_dur = 0\<rparr>"
    have "collection ((execute tp 0 s)\<lparr>uptime := u\<rparr>) (?e # es)"
      using execute_collection(1) [OF assms(2), of tp 0] by simp
    from gen [OF this] show ?thesis by auto
  qed
  with gen [OF assms(2)] show ?thesis by blast
qed

theorem C4_witness:
  "\<exists>s' es'. update demo_tasks ((execute 1 0 two_entries)\<lparr>uptime := 110\<rparr>) = Some (Inr s') \<and>
      collection s' es' \<and> heap s' 2 = None \<and> 2 \<notin> e_addr ` set es' \<and>
      2 \<notin> fst ` set (calls_during ((execute 1 0 two_entries)\<lparr>uptime := 110\<rparr>) s')"
  using C4_zero_duration_is_never_invoked [OF tasks_ok_demo collection_two_entries, of 1,
      THEN conjunct2, THEN spec, of 110]
  by (simp add: two_entries_fields)

text \<open>
  Claim C5: after an \<^verbatim>\<open>update\<close> call, every entry that was in the collection before the
  call and is still in it was live at the call's clock value, and every expired one is
  unlinked and freed; entries not from before the call can only have been scheduled by a
  task during the call, and there are none when the tasks leave the scheduler alone.
  When every entry has expired the collection is empty afterwards (\<^verbatim>\<open>head\<close> is null), the
  call invoked nothing, and a later call, at any time, changes nothing but the count of
  clock readings.
\<close>

theorem C5_expired_entries_do_not_persist:
  assumes "tasks_ok tasks" and "collection s es"
  shows "\<exists>s' es'. update tasks s = Some (Inr s') \<and> collection s' es' \<and>
     (\<forall>e\<in>set es'. e_addr e \<in> e_addr ` set es \<longrightarrow> e \<in> set es \<and> live (fst (millis s)) e) \<and>
     (tasks_quiet tasks \<longrightarrow> (\<forall>e\<in>set es'. e \<in> set es \<and> live (fst (millis s)) e)) \<and>
     (\<forall>e\<in>set es. \<not> live (fst (millis s)) e \<longrightarrow>
         heap s' (e_addr e) = None \<and> e_addr e \<notin> e_addr ` set es') \<and>
     ((\<forall>e\<in>set es. \<not> live (fst (millis s)) e) \<longrightarrow>
         es' = [] \<and> head s' = None \<and> calls_during s s' = [] \<and>
         (\<forall>u. update tasks (s'\<lparr>uptime := u\<rparr>) =
               Some (Inr (s'\<lparr>uptime := u, millis_calls := Suc (millis_calls s')\<rparr>))))"
proof -
  let ?t = "of_nat (uptime s) :: ulong"
  let ?kept = "filter (live ?t) es"
  from update_entry [OF assms] obtain s' new where
    res: "update tasks s = Some (Inr s')"
    and col': "collection s' (new @ ?kept)"
    and calls: "calls_during s s' = map call_of ?kept"
    and new: "\<forall>e\<in>set new. e_addr e \<notin> e_addr ` set es \<and> e_addr e \<notin> fst ` set (calls_during s s')"
    and ex: "\<forall>e\<in>set es. \<not> live ?t e \<longrightarrow>
            heap s' (e_addr e) = None \<and>
            e_addr e \<notin> fst ` set (calls_during s s') \<and>
            e_addr e \<notin> e_addr ` set (new @ ?kept)"
    and q: "tasks_quiet tasks \<longrightarrow> new = [] \<and> millis_calls s' = Suc (millis_calls s)"
    and em: "?kept = [] \<longrightarrow> new = [] \<and> uptime s' = uptime s"
    by blast
  have c3: "\<forall>e\<in>set (new @ ?kept). e_addr e \<in> e_addr ` set es \<longrightarrow> e \<in> set es \<and> live ?t e"
    using new by auto
  have c4: "tasks_quiet tasks \<longrightarrow> (\<forall>e\<in>set (new @ ?kept). e \<in> set es \<and> live ?t e)"
    using q by auto
  have c5: "\<forall>e\<in>set es. \<not> live ?t e \<longrightarrow>
         heap s' (e_addr e) = None \<and> e_addr e \<notin> e_addr ` set (new @ ?kept)"
    using ex by blast
  have c6: "(\<forall>e\<in>set es. \<not> live ?t e) \<longrightarrow>
         new @ ?kept = [] \<and> head s' = None \<and> calls_during s s' = [] \<and>
         (\<forall>u. update tasks (s'\<lparr>uptime := u\<rparr>) =
               Some (Inr (s'\<lparr>uptime := u, millis_calls := Suc (millis_calls s')\<rparr>)))"
  proof
    assume "\<forall>e\<in>set es. \<not> live ?t e"
    then have k: "?kept = []" by (simp add: filter_empty_conv)
    with em have n: "new = []" by simp
    with col' k have h: "head s' = None" by (simp add: collection_def)
    have "update tasks (s'\<lparr>uptime := u\<rparr>) =
               Some (Inr (s'\<lparr>uptime := u, millis_calls := Suc (millis_calls s')\<rparr>))" for u
      using update_empty [of "s'\<lparr>uptime := u\<rparr>" tasks] h by simp
    then show "new @ ?kept = [] \<and> head s' = None \<and> calls_during s s' = [] \<and>
         (\<forall>u. update tasks (s'\<lparr>uptime := u\<rparr>) =
               Some (Inr (s'\<lparr>uptime := u, millis_calls := Suc (millis_calls s')\<rparr>)))"
      using k n h calls by simp
  qed
  show ?thesis
    using res col' c3 c4 c5 c6 unfolding fst_millis
    by (intro exI [of _ s'] exI [of _ "new @ ?kept"] conjI) 
qed

theorem C5_witness:
  "\<exists>s'. update demo_tasks (two_entries\<lparr>uptime := 200\<rparr>) = Some (Inr s') \<and>
      collection s' [] \<and> heap s' 1 = None \<and> heap s' 0 = None \<and> head s' = None \<and>
      calls_during (two_entries\<lparr>uptime := 200\<rparr>) s' = [] \<and>
      update demo_tasks (s'\<lparr>uptime := 300\<rparr>) =
        Some (Inr (s'\<lparr>uptime := 300, millis_calls := Suc (millis_calls s')\<rparr>))"
proof -
  have h: "collection (two_entries\<lparr>uptime := 200\<rparr>)
     [\<lparr>e_addr = 1, e_task = 1, e_start = 103, e_dur = 20\<rparr>,
      \<lparr>e_addr = 0, e_task = 0, e_start = 100, e_dur = 5\<rparr>]"
    using collection_two_entries by simp
  show ?thesis
    using C5_expired_entries_do_not_persist [OF tasks_ok_demo h]
    by (auto simp: live_def)
qed

text \<open>
  Claim C6: \<^verbatim>\<open>execute\<close> creates exactly one new entry, whose start time is the clock
  reading at the call and whose duration is the argument, and puts it in front of the
  collection; every entry scheduled before is still there, with its task pointer, start
  time and duration, at its address and in the same order (no other node of the store is
  touched), so the collection holds exactly one entry more.
\<close>

theorem C6_execute_puts_one_entry_in_front:
  assumes "collection s es"
  shows "collection (execute tp d s)
           (\<lparr>e_addr = next_free s, e_task = tp, e_start = fst (millis s), e_dur = d\<rparr> # es) \<and>
         head (execute tp d s) = Some (next_free s) \<and>
         heap s (next_free s) = None \<and>
         (\<forall>a. a \<noteq> next_free s \<longrightarrow> heap (execute tp d s) a = heap s a) \<and>
         (\<forall>es'. collection (execute tp d s) es' \<longrightarrow> length es' = Suc (length es))"
proof -
  let ?e = "\<lparr>e_addr = next_free s, e_task = tp, e_start = fst (millis s), e_dur = d\<rparr>"
  have c: "collection (execute tp d s) (?e # es)"
    using execute_collection(1) [OF assms, of tp d] by (simp add: millis_def)
  have "\<forall>es'. collection (execute tp d s) es' \<longrightarrow> length es' = Suc (length es)"
    using collection_unique [OF c] by (metis length_Cons)
  moreover have "heap s (next_free s) = None"
    using assms by (simp add: collection_def alloc_ok_def)
  ultimately show ?thesis using c execute_collection(3,4) [OF assms, of tp d] by blast
qed

theorem C6_witness:
  "collection (execute 2 30 ((execute 1 20 (boot\<lparr>uptime := 7\<rparr>))\<lparr>uptime := 9\<rparr>))
     [\<lparr>e_addr = 1, e_task = 2, e_start = 9, e_dur = 30\<rparr>,
      \<lparr>e_addr = 0, e_task = 1, e_start = 7, e_dur = 20\<rparr>]"
proof -
  have h: "collection ((execute 1 20 (boot\<lparr>uptime := 7\<rparr>))\<lparr>uptime := 9\<rparr>)
             [\<lparr>e_addr = 0, e_task = 1, e_start = 7, e_dur = 20\<rparr>]"
    by (simp add: collection_def alloc_ok_def execute_def millis_def boot_def is_list.simps)
  have n: "next_free ((execute 1 20 (boot\<lparr>uptime := 7\<rparr>))\<lparr>uptime := 9\<rparr>) = 1"
    by (simp add: execute_def millis_def boot_def)
  show ?thesis using C6_execute_puts_one_entry_in_front [OF h, of 2 30] n
    by (simp add: millis_def)
qed

text \<open>
  Claim C7: whatever entries expire in one \<^verbatim>\<open>update\<close> call (the only one, the head, one in
  the middle, the last, any combination), the list after the call consists of exactly the
  live entries, in their order and with their fields, properly linked and ending at
  \<^verbatim>\<open>nullptr\<close> (in front of them only what tasks scheduled during the call); the removed
  nodes are freed; each live entry was invoked once; and a next call, at any later time,
  again returns and runs through the whole list.
\<close>

theorem C7_removal_keeps_the_list_linked:
  assumes "tasks_ok tasks" and "collection s es"
  shows "\<exists>s' new. update tasks s = Some (Inr s') \<and>
     collection s' (new @ filter (live (fst (millis s))) es) \<and>
     (tasks_quiet tasks \<longrightarrow> new = []) \<and>
     (\<forall>e\<in>set new. e_addr e \<notin> e_addr ` set es) \<and>
     (\<forall>e\<in>set es. \<not> live (fst (millis s)) e \<longrightarrow> heap s' (e_addr e) = None) \<and>
     calls_during s s' = map call_of (filter (live (fst (millis s))) es) \<and>
     (\<forall>u. \<exists>s'' new'. update tasks (s'\<lparr>uptime := u\<rparr>) = Some (Inr s'') \<and>
        collection s'' (new' @ filter (live (of_nat u)) (new @ filter (live (fst (millis s))) es)) \<and>
        (tasks_quiet tasks \<longrightarrow> new' = []) \<and>
        calls_during (s'\<lparr>uptime := u\<rparr>) s'' =
          map call_of (filter (live (of_nat u)) (new @ filter (live (fst (millis s))) es)))"
proof -
  let ?t = "of_nat (uptime s) :: ulong"
  let ?kept = "filter (live ?t) es"
  from update_entry [OF assms] obtain s' new where
    res: "update tasks s = Some (Inr s')"
    and col': "collection s' (new @ ?kept)"
    and calls: "calls_during s s' = map call_of ?kept"
    and new: "\<forall>e\<in>set new. e_addr e \<notin> e_addr ` set es \<and> e_addr e \<notin> fst ` set (calls_during s s')"
    and ex: "\<forall>e\<in>set es. \<not> live ?t e \<longrightarrow>
            heap s' (e_addr e) = None \<and>
            e_addr e \<notin> fst ` set (calls_during s s') \<and>
            e_addr e \<notin> e_addr ` set (new @ ?kept)"
    and q: "tasks_quiet tasks \<longrightarrow> new = [] \<and> millis_calls s' = Suc (millis_calls s)"
    by blast
  have again: "\<exists>s'' new'. update tasks (s'\<lparr>uptime := u\<rparr>) = Some (Inr s'') \<and>
        collection s'' (new' @ filter (live (of_nat u)) (new @ ?kept)) \<and>
        (tasks_quiet tasks \<longrightarrow> new' = []) \<and>
        calls_during (s'\<lparr>uptime := u\<rparr>) s'' = map call_of (filter (live (of_nat u)) (new @ ?kept))"
    for u
  proof -
    have "collection (s'\<lparr>uptime := u\<rparr>) (new @ ?kept)" using col' by simp
    from update_entry [OF assms(1) this] show ?thesis by auto
  qed
  have c3: "tasks_quiet tasks \<longrightarrow> new = []" using q by simp
  have c4: "\<forall>e\<in>set new. e_addr e \<notin> e_addr ` set es" using new by simp
  have c5: "\<forall>e\<in>set es. \<not> live ?t e \<longrightarrow> heap s' (e_addr e) = None" using ex by simp
  from res col' c3 c4 c5 calls again show ?thesis unfolding fst_millis by blast
qed

theorem C7_witness:
  "(\<exists>s'. update slow_tasks ((execute 0 5 boot)\<lparr>uptime := 10\<rparr>) = Some (Inr s') \<and>
      collection s' [] \<and> head s' = None \<and> heap s' 0 = None) \<and>
   (\<exists>s'. update slow_tasks five_entries = Some (Inr s') \<and>
      collection s'
        [\<lparr>e_addr = 3, e_task = 0, e_start = 0, e_dur = 50\<rparr>,
         \<lparr>e_addr = 1, e_task = 0, e_start = 0, e_dur = 50\<rparr>] \<and>
      heap s' 4 = None \<and> heap s' 2 = None \<and> heap s' 0 = None \<and>
      calls_during five_entries s' = [(3, 0), (1, 0)] \<and>
      (\<exists>s''. update slow_tasks (s'\<lparr>uptime := 20\<rparr>) = Some (Inr s'') \<and>
         collection s''
           [\<lparr>e_addr = 3, e_task = 0, e_start = 0, e_dur = 50\<rparr>,
            \<lparr>e_addr = 1, e_task = 0, e_start = 0, e_dur = 50\<rparr>] \<and>
         calls_during (s'\<lparr>uptime := 20\<rparr>) s'' = [(3, 0), (1, 0)]))"
proof -
  from C7_removal_keeps_the_list_linked [OF tasks_quiet_ok [OF tasks_quiet_slow]
      collection_sole_entry]
  obtain s0 where "update slow_tasks ((execute 0 5 boot)\<lparr>uptime := 10\<rparr>) = Some (Inr s0)"
    "collection s0 []" "heap s0 0 = None"
    by (auto simp: tasks_quiet_slow live_def execute_def millis_def boot_def)
  then have 0: "\<exists>s'. update slow_tasks ((execute 0 5 boot)\<lparr>uptime := 10\<rparr>) = Some (Inr s') \<and>
      collection s' [] \<and> head s' = None \<and> heap s' 0 = None"
    by (auto simp: collection_def)
  from C7_removal_keeps_the_list_linked [OF tasks_quiet_ok [OF tasks_quiet_slow] collection_five_entries]
  obtain s' where
    1: "update slow_tasks five_entries = Some (Inr s')"
    and 2: "collection s'
        [\<lparr>e_addr = 3, e_task = 0, e_start = 0, e_dur = 50\<rparr>,
         \<lparr>e_addr = 1, e_task = 0, e_start = 0, e_dur = 50\<rparr>]"
    and 3: "heap s' 4 = None \<and> heap s' 2 = None \<and> heap s' 0 = None"
    and 4: "calls_during five_entries s' = [(3, 0), (1, 0)]"
    and 5: "\<forall>u. \<exists>s'' new'. update slow_tasks (s'\<lparr>uptime := u\<rparr>) = Some (Inr s'') \<and>
        collection s'' (new' @ filter (live (of_nat u))
           [\<lparr>e_addr = 3, e_task = 0, e_start = 0, e_dur = 50\<rparr>,
            \<lparr>e_addr = 1, e_task = 0, e_start = 0, e_dur = 50\<rparr>]) \<and>
        new' = [] \<and>
        calls_during (s'\<lparr>uptime := u\<rparr>) s'' = map call_of (filter (live (of_nat u))
           [\<lparr>e_addr = 3, e_task = 0, e_start = 0, e_dur = 50\<rparr>,
            \<lparr>e_addr = 1, e_task = 0, e_start = 0, e_dur = 50\<rparr>])"
    by (auto simp: tasks_quiet_slow five_entries_fields live_def call_of_def)
  from 5 [THEN spec, of 20] have
    "\<exists>s''. update slow_tasks (s'\<lparr>uptime := 20\<rparr>) = Some (Inr s'') \<and>
         collection s''
           [\<lparr>e_addr = 3, e_task = 0, e_start = 0, e_dur = 50\<rparr>,
            \<lparr>e_addr = 1, e_task = 0, e_start = 0, e_dur = 50\<rparr>] \<and>
         calls_during (s'\<lparr>uptime := 20\<rparr>) s'' = [(3, 0), (1, 0)]"
    by (auto simp: live_def call_of_def)
  with 0 1 2 3 4 show ?thesis by blast
qed

text \<open>
  Claim C8: invoking a \<^verbatim>\<open>Task\<close> whose \<^verbatim>\<open>std::function\<close> is empty returns normally and
  leaves the state as it was; for every \<^verbatim>\<open>Task\<close> the call returns normally, so the
  \<^verbatim>\<open>bad_function_call\<close> of an empty \<^verbatim>\<open>std::function\<close> is never reached.
\<close>

theorem C8_empty_task_is_a_no_op:
  "Task_call \<lparr>func = None\<rparr> s = Inr s \<and>
   Task_call T s = Inr (case func T of None \<Rightarrow> s | Some g \<Rightarrow> g s) \<and>
   (\<forall>e. Task_call T s \<noteq> Inl e)"
  by (simp add: Task_call_Inr)

theorem C8_witness:
  "Task_call \<lparr>func = None\<rparr> boot = Inr boot \<and>
   Task_call (demo_tasks 0) (execute 1 20 boot) = Inr (execute 1 20 boot)"
  using C8_empty_task_is_a_no_op [of boot "demo_tasks 0"]
    C8_empty_task_is_a_no_op [of "execute 1 20 boot" "demo_tasks 0"]
  by (simp add: demo_tasks_def)

text \<open>
  Claim C9: entries that appear in the collection during an \<^verbatim>\<open>update\<close> call (scheduled by
  a task through \<^verbatim>\<open>execute\<close>; \<^verbatim>\<open>update\<close> itself adds none) are put in front of the list
  and are not invoked in that call: every invocation of the call is for an entry that
  was there at its start. The next call examines them: it invokes each one that is live
  then exactly once, and removes the others.
\<close>

theorem C9_entries_scheduled_during_update_wait:
  assumes "tasks_ok tasks" and "collection s es"
  shows "\<exists>s' new. update tasks s = Some (Inr s') \<and>
     collection s' (new @ filter (live (fst (millis s))) es) \<and>
     (tasks_quiet tasks \<longrightarrow> new = []) \<and>
     (\<forall>e\<in>set new. e_addr e \<notin> e_addr ` set es \<and> e_addr e \<notin> fst ` set (calls_during s s')) \<and>
     set (calls_during s s') \<subseteq> call_of ` set es \<and>
     (\<forall>u. \<exists>s'' es''. update tasks (s'\<lparr>uptime := u\<rparr>) = Some (Inr s'') \<and> collection s'' es'' \<and>
        (\<forall>e\<in>set new.
           if live (of_nat u) e
           then count_list (calls_during (s'\<lparr>uptime := u\<rparr>) s'') (call_of e) = 1 \<and> e \<in> set es''
           else e_addr e \<notin> fst ` set (calls_during (s'\<lparr>uptime := u\<rparr>) s'') \<and>
                e_addr e \<notin> e_addr ` set es''))"
proof -
  let ?t = "of_nat (uptime s) :: ulong"
  let ?kept = "filter (live ?t) es"
  from update_entry [OF assms] obtain s' new where
    res: "update tasks s = Some (Inr s')"
    and col': "collection s' (new @ ?kept)"
    and calls: "calls_during s s' = map call_of ?kept"
    and new: "\<forall>e\<in>set new. e_addr e \<notin> e_addr ` set es \<and> e_addr e \<notin> fst ` set (calls_during s s')"
    and q: "tasks_quiet tasks \<longrightarrow> new = [] \<and> millis_calls s' = Suc (millis_calls s)"
    by blast
  have sub: "set (calls_during s s') \<subseteq> call_of ` set es" unfolding calls by auto
  have again: "\<exists>s'' es''. update tasks (s'\<lparr>uptime := u\<rparr>) = Some (Inr s'') \<and> collection s'' es'' \<and>
        (\<forall>e\<in>set new.
           if live (of_nat u) e
           then count_list (calls_during (s'\<lparr>uptime := u\<rparr>) s'') (call_of e) = 1 \<and> e \<in> set es''
           else e_addr e \<notin> fst ` set (calls_during (s'\<lparr>uptime := u\<rparr>) s'') \<and>
                e_addr e \<notin> e_addr ` set es'')" for u
  proof -
    let ?s = "s'\<lparr>uptime := u\<rparr>"
    let ?u = "of_nat u :: ulong"
    have c: "collection ?s (new @ ?kept)" using col' by simp
    from update_entry [OF assms(1) c] obtain s'' new' where
      res2: "update tasks ?s = Some (Inr s'')"
      and col2: "collection s'' (new' @ filter (live ?u) (new @ ?kept))"
      and lv2: "\<forall>e\<in>set (new @ ?kept). live ?u e \<longrightarrow>
            count_list (calls_during ?s s'') (call_of e) = 1 \<and>
            count_list (map fst (calls_during ?s s'')) (e_addr e) = 1"
      and ex2: "\<forall>e\<in>set (new @ ?kept). \<not> live ?u e \<longrightarrow>
            heap s'' (e_addr e) = None \<and>
            e_addr e \<notin> fst ` set (calls_during ?s s'') \<and>
            e_addr e \<notin> e_addr ` set (new' @ filter (live ?u) (new @ ?kept))"
      by auto
    have "\<forall>e\<in>set new.
           if live ?u e
           then count_list (calls_during ?s s'') (call_of e) = 1 \<and>
                e \<in> set (new' @ filter (live ?u) (new @ ?kept))
           else e_addr e \<notin> fst ` set (calls_during ?s s'') \<and>
                e_addr e \<notin> e_addr ` set (new' @ filter (live ?u) (new @ ?kept))"
    proof
      fix e assume e: "e \<in> set new"
      then have m: "e \<in> set (new @ ?kept)" by simp
      show "if live ?u e
           then count_list (calls_during ?s s'') (call_of e) = 1 \<and>
                e \<in> set (new' @ filter (live ?u) (new @ ?kept))
           else e_addr e \<notin> fst ` set (calls_during ?s s'') \<and>
                e_addr e \<notin> e_addr ` set (new' @ filter (live ?u) (new @ ?kept))"
      proof (cases "live ?u e")
        case True
        then show ?thesis using lv2 m e by simp
      next
        case False
        then show ?thesis using ex2 m by simp
      qed
    qed
    with res2 col2 show ?thesis by blast
  qed
  have c3: "tasks_quiet tasks \<longrightarrow> new = []" using q by simp
  from res col' c3 new sub again show ?thesis unfolding fst_millis by blast
qed

theorem C9_witness:
  "update demo_tasks two_entries = Some (Inr
     \<lparr>head = Some 2,
      heap = [1 \<mapsto> \<lparr>task = 1, startTime = 103, duration = 20, next = None\<rparr>,
              2 \<mapsto> \<lparr>task = 2, startTime = 110, duration = 5, next = Some 1\<rparr>],
      next_free = 3, uptime = 110, millis_calls = 4, invoked = [(1, 1)]\<rparr>) \<and>
   (\<exists>s'. update demo_tasks two_entries = Some (Inr s') \<and>
      collection s'
        [\<lparr>e_addr = 2, e_task = 2, e_start = 110, e_dur = 5\<rparr>,
         \<lparr>e_addr = 1, e_task = 1, e_start = 103, e_dur = 20\<rparr>] \<and>
      calls_during two_entries s' = [(1, 1)] \<and>
      (\<exists>s'' es''. update demo_tasks (s'\<lparr>uptime := 112\<rparr>) = Some (Inr s'') \<and>
         collection s'' es'' \<and>
         count_list (calls_during (s'\<lparr>uptime := 112\<rparr>) s'') (2, 2) = 1 \<and>
         \<lparr>e_addr = 2, e_task = 2, e_start = 110, e_dur = 5\<rparr> \<in> set es''))"
proof -
  let ?e2 = "\<lparr>e_addr = 2, e_task = 2, e_start = 110, e_dur = 5\<rparr>"
  let ?e1 = "\<lparr>e_addr = 1, e_task = 1, e_start = 103, e_dur = 20\<rparr>"
  let ?X = "\<lparr>head = Some 2,
      heap = [1 \<mapsto> \<lparr>task = 1, startTime = 103, duration = 20, next = None\<rparr>,
              2 \<mapsto> \<lparr>task = 2, startTime = 110, duration = 5, next = Some 1\<rparr>],
      next_free = 3, uptime = 110, millis_calls = 4, invoked = [(1, 1)]\<rparr>"
  from C9_entries_scheduled_during_update_wait [OF tasks_ok_demo collection_two_entries]
  obtain s' new where
    1: "update demo_tasks two_entries = Some (Inr s')"
    and 2: "collection s' (new @ [?e1])"
    and 3: "\<forall>u. \<exists>s'' es''. update demo_tasks (s'\<lparr>uptime := u\<rparr>) = Some (Inr s'') \<and>
        collection s'' es'' \<and>
        (\<forall>e\<in>set new.
           if live (of_nat u) e
           then count_list (calls_during (s'\<lparr>uptime := u\<rparr>) s'') (call_of e) = 1 \<and> e \<in> set es''
           else e_addr e \<notin> fst ` set (calls_during (s'\<lparr>uptime := u\<rparr>) s'') \<and>
                e_addr e \<notin> e_addr ` set es'')"
    by (auto simp: two_entries_fields live_def)
  have X: "s' = ?X" using 1 update_two_entries by simp
  have "collection ?X [?e2, ?e1]"
    by (simp add: collection_def alloc_ok_def is_list.simps)
  with 2 X have "new @ [?e1] = [?e2, ?e1]" using collection_unique by blast
  then have new: "new = [?e2]" by simp
  have 4: "collection s' [?e2, ?e1]" using 2 new by simp
  have 5: "calls_during two_entries s' = [(1, 1)]"
    using X by (simp add: calls_during_def)
  from 3 [THEN spec, of 112] new have
    "\<exists>s'' es''. update demo_tasks (s'\<lparr>uptime := 112\<rparr>) = Some (Inr s'') \<and>
         collection s'' es'' \<and>
         count_list (calls_during (s'\<lparr>uptime := 112\<rparr>) s'') (2, 2) = 1 \<and> ?e2 \<in> set es''"
    by (auto simp: live_def call_of_def)
  with 1 4 5 show ?thesis using update_two_entries by blast
qed

text \<open>
  Claim C10: scheduling one task \<open>N\<close> times makes \<open>N\<close> entries of their own (distinct nodes,
  each with its duration), without deduplication; one \<^verbatim>\<open>update\<close> call invokes the task as
  many times as there are live entries for it; and each entry stays or goes by its own
  start time and duration.
\<close>

theorem C10_one_task_scheduled_many_times:
  assumes "tasks_ok tasks" and "collection s es"
  shows "(\<exists>new. collection (schedule_all tp ds s) (new @ es) \<and> length new = length ds \<and>
            map e_dur new = rev (map snd ds) \<and> (\<forall>e\<in>set new. e_task e = tp) \<and>
            distinct (map e_addr new)) \<and>
     (\<exists>s' es'. update tasks s = Some (Inr s') \<and> collection s' es' \<and>
        length (filter (\<lambda>c. snd c = tp) (calls_during s s')) =
          length (filter (\<lambda>e. e_task e = tp \<and> live (fst (millis s)) e) es) \<and>
        (\<forall>e\<in>set es. e \<in> set es' \<longleftrightarrow> live (fst (millis s)) e))"
proof -
  let ?t = "of_nat (uptime s) :: ulong"
  let ?kept = "filter (live ?t) es"
  from schedule_all_collection [OF assms(2), of tp ds] obtain new where
    new: "collection (schedule_all tp ds s) (new @ es)" "length new = length ds"
    "map e_dur new = rev (map snd ds)" "\<forall>e\<in>set new. e_task e = tp"
    by blast
  from collection_distinct [OF new(1)] have "distinct (map e_addr new)" by simp
  with new have part1: "\<exists>new. collection (schedule_all tp ds s) (new @ es) \<and>
            length new = length ds \<and> map e_dur new = rev (map snd ds) \<and>
            (\<forall>e\<in>set new. e_task e = tp) \<and> distinct (map e_addr new)"
    by blast
  from update_entry [OF assms] obtain s' nw where
    res: "update tasks s = Some (Inr s')"
    and col': "collection s' (nw @ ?kept)"
    and calls: "calls_during s s' = map call_of ?kept"
    and fresh: "\<forall>e\<in>set nw. e_addr e \<notin> e_addr ` set es \<and> e_addr e \<notin> fst ` set (calls_during s s')"
    by blast
  have "filter (\<lambda>c. snd c = tp) (map call_of ?kept) =
        map call_of (filter (\<lambda>e. e_task e = tp \<and> live ?t e) es)"
    by (induction es) (auto simp: call_of_def)
  then have cnt: "length (filter (\<lambda>c. snd c = tp) (calls_during s s')) =
          length (filter (\<lambda>e. e_task e = tp \<and> live ?t e) es)"
    unfolding calls by simp
  have mem: "\<forall>e\<in>set es. e \<in> set (nw @ ?kept) \<longleftrightarrow> live ?t e"
    using fresh by auto
  from res col' cnt mem have "\<exists>s' es'. update tasks s = Some (Inr s') \<and> collection s' es' \<and>
        length (filter (\<lambda>c. snd c = tp) (calls_during s s')) =
          length (filter (\<lambda>e. e_task e = tp \<and> live (fst (millis s)) e) es) \<and>
        (\<forall>e\<in>set es. e \<in> set es' \<longleftrightarrow> live (fst (millis s)) e)"
    unfolding fst_millis by blast
  with part1 show ?thesis by blast
qed

theorem C10_witness:
  "(\<exists>new. collection (schedule_all 3 [(0, 5), (1, 50), (1, 500)] boot) new \<and> length new = 3 \<and>
      map e_dur new = [500, 50, 5] \<and> distinct (map e_addr new)) \<and>
   (\<exists>s' es'. update slow_tasks three_same = Some (Inr s') \<and> collection s' es' \<and>
      length (filter (\<lambda>c. snd c = 3) (calls_during three_same s')) = 2 \<and>
      \<lparr>e_addr = 2, e_task = 3, e_start = 2, e_dur = 500\<rparr> \<in> set es' \<and>
      \<lparr>e_addr = 1, e_task = 3, e_start = 1, e_dur = 50\<rparr> \<in> set es' \<and>
      \<lparr>e_addr = 0, e_task = 3, e_start = 0, e_dur = 5\<rparr> \<notin> set es')"
proof -
  have 1: "\<exists>new. collection (schedule_all 3 [(0, 5), (1, 50), (1, 500)] boot) new \<and> length new = 3 \<and>
      map e_dur new = [500, 50, 5] \<and> distinct (map e_addr new)"
    using C10_one_task_scheduled_many_times [OF tasks_ok_demo collection_boot,
        of 3 "[(0, 5), (1, 50), (1, 500)]", THEN conjunct1]
    by (auto simp: eval_nat_numeral simp del: schedule_all.simps)
  from C10_one_task_scheduled_many_times [OF tasks_quiet_ok [OF tasks_quiet_slow]
        collection_three_same, of 3 "[]", THEN conjunct2]
  obtain s' es' where 2: "update slow_tasks three_same = Some (Inr s')" "collection s' es'"
      "length (filter (\<lambda>c. snd c = 3) (calls_during three_same s')) = Suc (Suc 0)"
      "\<lparr>e_addr = 2, e_task = 3, e_start = 2, e_dur = 500\<rparr> \<in> set es'"
      "\<lparr>e_addr = 1, e_task = 3, e_start = 1, e_dur = 50\<rparr> \<in> set es'"
      "\<lparr>e_addr = 0, e_task = 3, e_start = 0, e_dur = 5\<rparr> \<notin> set es'"
    by (auto simp: three_same_fields live_def)
  from 2(3) have "length (filter (\<lambda>c. snd c = 3) (calls_during three_same s')) = 2"
    by simp
  with 1 2 show ?thesis by blast
qed

end
